theory Spec2Isabelle
  imports Main "HOL-Library.Word" "HOL-Library.Signed_Division"
begin

unbundle bit_operations_syntax

section \<open>The sand hourglass of \<^verbatim>\<open>gravity_sand.ino\<close>\<close>

text \<open>
  The sketch runs on an 8-bit AVR board: \<^verbatim>\<open>uint8_t\<close> is an 8-bit word and
  \<^verbatim>\<open>unsigned long\<close> a 32-bit word. The \<^verbatim>\<open>int\<close> variables that hold grid
  coordinates start at 7 and are only ever decremented under a guard \<^verbatim>\<open>> 0\<close>, so they are
  modelled as mathematical integers. Arrays are lists of their declared length. The sensor,
  the potentiometer and the clock are inputs of the functions that read them; tones, serial
  text and delays change no variable and are left out.
\<close>

type_synonym u8 = "8 word"
type_synonym u32 = "32 word"

definition NECK_ROW :: int where "NECK_ROW = 7"
definition NECK_COL :: int where "NECK_COL = 7"
definition TOP_ROT_DEG :: int where "TOP_ROT_DEG = 90"
definition BOT_ROT_DEG :: int where "BOT_ROT_DEG = 270"
definition TOP_ADDR :: u8 where "TOP_ADDR = 0x12"
definition BOT_ADDR :: u8 where "BOT_ADDR = 0x13"
definition SAND_R :: u8 where "SAND_R = 0"
definition SAND_G :: u8 where "SAND_G = 255"
definition SAND_B :: u8 where "SAND_B = 0"
definition ACC_THRESHOLD_LOW :: int where "ACC_THRESHOLD_LOW = -25"
definition ACC_THRESHOLD_HIGH :: int where "ACC_THRESHOLD_HIGH = 25"
definition FLIP_DEBOUNCE_MS :: u32 where "FLIP_DEBOUNCE_MS = 800"

subsection \<open>The global variables\<close>

record state =
  topToBottom :: bool
  lastFlipMs :: u32
  lastGravity :: int
  targetMs :: u32
  stepIntervalMs :: u32
  lastStepMs :: u32
  finished :: bool
  maskX :: "u8 list"
  maskY :: "u8 list"
  yStatic :: "bool list list"
  grainActive :: bool
  grRow :: int
  grCol :: int
  sideToggle :: bool
  orderRow :: "u8 list"
  orderCol :: "u8 list"
  grainIndex :: u8
  topHoleActive :: bool
  holeRow :: int
  holeCol :: int

text \<open>The values the globals have when the program starts (C zero-initialises the rest).\<close>

definition globals0 :: state where
  "globals0 = \<lparr> topToBottom = True, lastFlipMs = 0, lastGravity = 0, targetMs = 0,
     stepIntervalMs = 0, lastStepMs = 0, finished = False,
     maskX = replicate 8 0, maskY = replicate 8 0,
     yStatic = replicate 8 (replicate 8 False),
     grainActive = False, grRow = NECK_ROW, grCol = NECK_COL, sideToggle = False,
     orderRow = replicate 64 0, orderCol = replicate 64 0, grainIndex = 0,
     topHoleActive = False, holeRow = NECK_ROW, holeCol = NECK_COL \<rparr>"

subsection \<open>Rotation\<close>

text \<open>\<^verbatim>\<open>rotate8\<close>: C's \<^verbatim>\<open>%\<close> truncates towards zero, which is \<open>smod\<close>.\<close>

definition rotate8 :: "u8 \<Rightarrow> u8 \<Rightarrow> int \<Rightarrow> u8 \<times> u8" where
  "rotate8 x y deg0 =
     (let deg = ((deg0 smod 360) + 360) smod 360 in
      if deg = 0 then (x, y)
      else if deg = 90 then (7 - y, x)
      else if deg = 180 then (7 - x, 7 - y)
      else if deg = 270 then (y, 7 - x)
      else (x, y))"

text \<open>
  \<^verbatim>\<open>applyRotation\<close> clears the eight bytes of \<^verbatim>\<open>dst\<close> and then sets one bit of
  \<^verbatim>\<open>dst\<close> for every bit set in \<^verbatim>\<open>src\<close>; the result is the new content of \<^verbatim>\<open>dst\<close>.
\<close>

definition applyRotation :: "u8 list \<Rightarrow> int \<Rightarrow> u8 list" where
  "applyRotation src deg =
     fold (\<lambda>r dst.
       fold (\<lambda>c dst.
         if (src ! r) AND push_bit c 1 \<noteq> 0
         then (let x = (of_nat c :: u8); y = (of_nat r :: u8);
                   (rx, ry) = rotate8 x y deg
               in dst[unat ry := (dst ! unat ry) OR push_bit (unat rx) 1])
         else dst) [0..<8] dst) [0..<8] (replicate 8 0)"

text \<open>\<^verbatim>\<open>sendFrame\<close>: the bytes written to the bus for one panel.\<close>

definition sendFrame :: "u8 \<Rightarrow> u8 list \<Rightarrow> u8 \<times> u8 list" where
  "sendFrame addr bytes = (addr, take 8 bytes @ [SAND_R, SAND_G, SAND_B])"

subsection \<open>The drain order\<close>

record Node =
  node_r :: u8
  node_c :: u8
  node_d :: u8

text \<open>
  The cells of one anti-diagonal, in ascending row. The array \<^verbatim>\<open>nodes[8]\<close> with its fill
  count \<^verbatim>\<open>n\<close> is the list of its first \<^verbatim>\<open>n\<close> entries (the others are never read).
\<close>

definition collectNodes :: "int \<Rightarrow> Node list" where
  "collectNodes s =
     fold (\<lambda>r nodes.
        let c = s - r in
        if c \<ge> 0 \<and> c < 8
        then (let diff = r - c; diff = (if diff < 0 then - diff else diff)
              in nodes @ [\<lparr> node_r = of_int r, node_c = of_int c, node_d = of_int diff \<rparr>])
        else nodes) [0..7] []"

text \<open>The exchange sort of the source (it calls it a bubble sort), by ascending \<^verbatim>\<open>d\<close>.\<close>

definition sortNodes :: "Node list \<Rightarrow> Node list" where
  "sortNodes nodes0 =
     (let n = length nodes0 in
      fold (\<lambda>i nodes.
        fold (\<lambda>j nodes.
          if node_d (nodes ! j) < node_d (nodes ! i)
          then (let tmp = nodes ! i in (nodes[i := nodes ! j])[j := tmp])
          else nodes) [i + 1..<n] nodes) [0..<n - 1] nodes0)"

definition pushNodes :: "Node list \<Rightarrow> u8 list \<times> u8 list \<times> nat \<Rightarrow> u8 list \<times> u8 list \<times> nat" where
  "pushNodes nodes acc =
     fold (\<lambda>nd (orow, ocol, idx).
        if idx < 64 then (orow[idx := node_r nd], ocol[idx := node_c nd], idx + 1)
        else (orow, ocol, idx)) nodes acc"

definition buildOrderDiagonal :: "state \<Rightarrow> state" where
  "buildOrderDiagonal st =
     (let (orow, ocol, idx) =
        fold (\<lambda>s acc. pushNodes (sortNodes (collectNodes s)) acc) [0..14]
          (orderRow st, orderCol st, 0)
      in st\<lparr> orderRow := orow, orderCol := ocol \<rparr>)"

subsection \<open>Duration\<close>

definition getDurationFromPot :: "int \<Rightarrow> u32" where
  "getDurationFromPot v =
     (if v < 170 then 30000
      else if v < 410 then 60000
      else if v < 600 then 120000
      else if v < 820 then 300000
      else if v < 900 then 600000
      else 1800000)"

subsection \<open>Frames\<close>

definition buildMaskY :: "state \<Rightarrow> state" where
  "buildMaskY s =
     (let m0 = replicate 8 (0 :: u8);
          m1 = fold (\<lambda>r m.
                 fold (\<lambda>c m. if yStatic s ! r ! c then m[r := (m ! r) OR push_bit c 1] else m)
                   [0..<8] m) [0..<8] m0;
          m2 = (if grainActive s
                then (if grRow s \<ge> 0 \<and> grRow s < 8 \<and> grCol s \<ge> 0 \<and> grCol s < 8
                      then m1[nat (grRow s) := (m1 ! nat (grRow s)) OR push_bit (nat (grCol s)) 1]
                      else m1)
                else m1)
      in s\<lparr> maskY := m2 \<rparr>)"

text \<open>\<^verbatim>\<open>renderFrame\<close> returns the new state and the two bus messages, top panel first.\<close>

definition renderFrame :: "state \<Rightarrow> state \<times> (u8 \<times> u8 list) \<times> (u8 \<times> u8 list)" where
  "renderFrame s0 =
     (let s = buildMaskY s0;
          tempX = maskX s;
          tempY = maskY s;
          tempX = (if topHoleActive s
                   then (if holeRow s \<ge> 0 \<and> holeRow s < 8 \<and> holeCol s \<ge> 0 \<and> holeCol s < 8
                         then tempX[nat (holeRow s) :=
                                (tempX ! nat (holeRow s)) AND NOT (push_bit (nat (holeCol s)) 1)]
                         else tempX)
                   else tempX);
          (topMask, botMask) =
             (if topToBottom s
              then (applyRotation tempX TOP_ROT_DEG, applyRotation tempY BOT_ROT_DEG)
              else (applyRotation tempY TOP_ROT_DEG, applyRotation tempX BOT_ROT_DEG))
      in (s, sendFrame TOP_ADDR topMask, sendFrame BOT_ADDR botMask))"

subsection \<open>Starting a cycle\<close>

text \<open>\<open>v\<close> is the potentiometer reading and \<open>now\<close> the value of \<^verbatim>\<open>millis()\<close>.\<close>

definition startNewCycle :: "bool \<Rightarrow> int \<Rightarrow> u32 \<Rightarrow> state \<Rightarrow> state" where
  "startNewCycle dirTopToBottom v now s =
     (let tgt = getDurationFromPot v;
          totalFrames = (64 * 10 :: u32);
          totalFrames = (if totalFrames = 0 then 1 else totalFrames);
          iv = tgt div totalFrames;
          iv = (if iv = 0 then 1 else iv)
      in s\<lparr> topToBottom := dirTopToBottom, finished := False, grainIndex := 0,
            grainActive := False, sideToggle := False, topHoleActive := False,
            maskX := replicate 8 0xFF, maskY := replicate 8 0,
            yStatic := replicate 8 (replicate 8 False),
            targetMs := tgt, stepIntervalMs := iv, lastStepMs := now \<rparr>)"

subsection \<open>Orientation and flips\<close>

text \<open>\<open>x\<close> and \<open>y\<close> are the two angles after their conversion to \<^verbatim>\<open>int\<close>.\<close>

definition getGravity :: "int \<Rightarrow> int \<Rightarrow> state \<Rightarrow> int" where
  "getGravity x y s =
     (if y < ACC_THRESHOLD_LOW then 90
      else if x > ACC_THRESHOLD_HIGH then 0
      else if y > ACC_THRESHOLD_HIGH then 270
      else if x < ACC_THRESHOLD_LOW then 180
      else lastGravity s)"

text \<open>
  \<open>now\<close> is \<^verbatim>\<open>millis()\<close> as \<^verbatim>\<open>checkFlip\<close> reads it; \<open>v\<close> and \<open>nowC\<close> are what
  \<^verbatim>\<open>startNewCycle\<close> reads if it is called. The subtraction wraps as in C.
\<close>

definition checkFlip :: "int \<Rightarrow> int \<Rightarrow> u32 \<Rightarrow> int \<Rightarrow> u32 \<Rightarrow> state \<Rightarrow> state" where
  "checkFlip x y now v nowC s =
     (let g = getGravity x y s;
          newDir = (g = 90);
          s1 = (if newDir \<noteq> topToBottom s \<and> (now - lastFlipMs s) > FLIP_DEBOUNCE_MS
                then startNewCycle newDir v nowC (s\<lparr> lastFlipMs := now \<rparr>)
                else s)
      in s1\<lparr> lastGravity := g \<rparr>)"

subsection \<open>One animation step\<close>

text \<open>
  The first branch of \<^verbatim>\<open>stepAnimation\<close>: drain the next cell, spawn grain and hole. It
  runs with the drain index below 64, and the order arrays hold rows and columns below 8
  (lemmas \<open>order_nth\<close> and \<open>diagOrder_nth_cell\<close> below), so both reads and the write are in
  range.
\<close>

definition spawnGrain :: "state \<Rightarrow> state" where
  "spawnGrain s =
     (let r = orderRow s ! unat (grainIndex s);
          c = orderCol s ! unat (grainIndex s)
      in s\<lparr> maskX := (maskX s)[unat r := (maskX s ! unat r) AND NOT (push_bit (unat c) 1)],
            grRow := NECK_ROW, grCol := NECK_COL, grainActive := True,
            topHoleActive := True, holeRow := NECK_ROW, holeCol := NECK_COL \<rparr>)"

text \<open>
  The second branch: the grain moves, and settles when it did not. The result of the movement
  part is the new state and the flag \<^verbatim>\<open>moved\<close>. A coordinate is decremented, and
  \<^verbatim>\<open>yStatic\<close> read at the decremented index, only under the guard that it is positive.
\<close>

definition tryMove :: "state \<Rightarrow> state \<times> bool" where
  "tryMove s =
     (if grRow s > 0 \<and> grCol s > 0 \<and> \<not> yStatic s ! nat (grRow s - 1) ! nat (grCol s - 1)
      then (s\<lparr> grRow := grRow s - 1, grCol := grCol s - 1 \<rparr>, True)
      else
        (let canLeft = (grCol s > 0 \<and> \<not> yStatic s ! nat (grRow s) ! nat (grCol s - 1));
             canRight = (grRow s > 0 \<and> \<not> yStatic s ! nat (grRow s - 1) ! nat (grCol s))
         in if canLeft \<or> canRight
            then (let (choice, s1) =
                        (if canLeft \<and> canRight
                         then ((if sideToggle s then 1 else -1 :: int),
                               s\<lparr> sideToggle := \<not> sideToggle s \<rparr>)
                         else if canLeft then (-1, s)
                         else (1, s))
                  in if choice = -1 then (s1\<lparr> grCol := grCol s1 - 1 \<rparr>, True)
                     else if choice = 1 then (s1\<lparr> grRow := grRow s1 - 1 \<rparr>, True)
                     else (s1, False))
            else (s, False)))"

definition settleGrain :: "state \<Rightarrow> state" where
  "settleGrain s =
     (let s1 = (if grRow s \<ge> 0 \<and> grRow s < 8 \<and> grCol s \<ge> 0 \<and> grCol s < 8
                then s\<lparr> yStatic := (yStatic s)[nat (grRow s) :=
                                      (yStatic s ! nat (grRow s))[nat (grCol s) := True]] \<rparr>
                else s);
          s2 = s1\<lparr> grainActive := False, grainIndex := grainIndex s1 + 1 \<rparr>
      in if grainIndex s2 \<ge> 64 then s2\<lparr> finished := True \<rparr> else s2)"

definition moveGrain :: "state \<Rightarrow> state" where
  "moveGrain s = (let (s1, moved) = tryMove s in if \<not> moved then settleGrain s1 else s1)"

text \<open>The last part: the hole climbs the diagonal.\<close>

definition moveHole :: "state \<Rightarrow> state" where
  "moveHole s =
     (if topHoleActive s
      then (if holeRow s > 0 \<and> holeCol s > 0
            then s\<lparr> holeRow := holeRow s - 1, holeCol := holeCol s - 1 \<rparr>
            else s\<lparr> topHoleActive := False \<rparr>)
      else s)"

definition stepAnimation :: "state \<Rightarrow> state \<times> (u8 \<times> u8 list) \<times> (u8 \<times> u8 list)" where
  "stepAnimation s =
     (if finished s then renderFrame s
      else
        (let s1 = (if \<not> grainActive s \<and> grainIndex s < 64 then spawnGrain s
                   else if grainActive s then moveGrain s
                   else s)
         in renderFrame (moveHole s1)))"

text \<open>The state after one animation step.\<close>

definition stepS :: "state \<Rightarrow> state" where
  "stepS s = fst (stepAnimation s)"

subsection \<open>Setup and main loop\<close>

text \<open>\<^verbatim>\<open>setup()\<close>, with the angles, the potentiometer reading and the clock it reads.\<close>

definition setupBoard :: "int \<Rightarrow> int \<Rightarrow> int \<Rightarrow> u32 \<Rightarrow> state" where
  "setupBoard x y v now =
     (let s = buildOrderDiagonal globals0;
          s = s\<lparr> lastGravity := getGravity x y s \<rparr>;
          dir = (lastGravity s = 90)
      in startNewCycle dir v now s)"

text \<open>What one pass of \<^verbatim>\<open>loop\<close> reads from the outside.\<close>

record reading =
  angleX :: int
  angleY :: int
  nowFlip :: u32
  pot :: int
  nowCycle :: u32
  nowLoop :: u32

definition loop :: "reading \<Rightarrow> state \<Rightarrow> state" where
  "loop i s0 =
     (let s = checkFlip (angleX i) (angleY i) (nowFlip i) (pot i) (nowCycle i) s0;
          now = nowLoop i
      in if now - lastStepMs s \<ge> stepIntervalMs s
         then stepS (s\<lparr> lastStepMs := now \<rparr>)
         else s)"

text \<open>The states a run can be in between two passes of the loop.\<close>

inductive reachable :: "state \<Rightarrow> bool" where
  boot: "reachable (setupBoard x y v now)"
| pass: "reachable s \<Longrightarrow> reachable (loop i s)"

section \<open>What the proofs observe of a state\<close>

text \<open>The 64 cells (row, column) of a grid, row by row.\<close>

definition cells :: "(nat \<times> nat) list" where
  "cells = List.product [0..<8] [0..<8]"

text \<open>The number of cells set in \<^verbatim>\<open>maskX\<close>: bit \<open>c\<close> of byte \<open>r\<close> is cell \<open>(r, c)\<close>.\<close>

definition countX :: "state \<Rightarrow> nat" where
  "countX s = length (filter (\<lambda>(r, c). bit (maskX s ! r) c) cells)"

definition countY :: "state \<Rightarrow> nat" where
  "countY s = length (filter (\<lambda>(r, c). yStatic s ! r ! c) cells)"


definition drainOrder :: "state \<Rightarrow> (nat \<times> nat) list" where
  "drainOrder s = map (\<lambda>(r, c). (unat r, unat c)) (zip (orderRow s) (orderCol s))"

text \<open>The drain order that \<^verbatim>\<open>setup()\<close> computes, on the zero-initialised arrays.\<close>

definition diagOrder :: "(nat \<times> nat) list" where
  "diagOrder = drainOrder (buildOrderDiagonal globals0)"

text \<open>The same two fields as sets of cells, and the number of order entries used up.\<close>

definition settled :: "state \<Rightarrow> (nat \<times> nat) set" where
  "settled s = {(r, c). r < 8 \<and> c < 8 \<and> yStatic s ! r ! c}"

definition source :: "state \<Rightarrow> (nat \<times> nat) set" where
  "source s = {(r, c). r < 8 \<and> c < 8 \<and> bit (maskX s ! r) c}"

definition drained :: "state \<Rightarrow> nat" where
  "drained s = unat (grainIndex s) + (if grainActive s then 1 else 0)"

text \<open>
  What holds of the variables of the sand in every state of a run: the order arrays are the
  ones built at setup; the drain index is at most 64, and 64 exactly when the cycle is
  finished; an active grain is inside the grid, on a cell that is not settled; the settled
  cells are closed towards (0,0) and as many as the drain index; the source holds the cells
  of the drain order that have not been drained.
\<close>

definition wf0 :: "state \<Rightarrow> bool" where
  "wf0 s \<longleftrightarrow>
     orderRow s = orderRow (buildOrderDiagonal globals0) \<and>
     orderCol s = orderCol (buildOrderDiagonal globals0) \<and>
     length (maskX s) = 8 \<and> length (yStatic s) = 8 \<and> (\<forall>r<8. length (yStatic s ! r) = 8) \<and>
     unat (grainIndex s) \<le> 64 \<and> (finished s \<longleftrightarrow> unat (grainIndex s) = 64) \<and>
     (grainActive s \<longrightarrow> unat (grainIndex s) < 64 \<and> 0 \<le> grRow s \<and> grRow s < 8 \<and>
        0 \<le> grCol s \<and> grCol s < 8 \<and> (nat (grRow s), nat (grCol s)) \<notin> settled s) \<and>
     (\<forall>r c r' c'. (r, c) \<in> settled s \<and> r' \<le> r \<and> c' \<le> c \<longrightarrow> (r', c') \<in> settled s) \<and>
     card (settled s) = unat (grainIndex s) \<and>
     source s = set (drop (drained s) diagOrder)"

text \<open>Between two steps \<^verbatim>\<open>maskY\<close> is, in addition, what \<^verbatim>\<open>buildMaskY\<close> would make it.\<close>

definition wellformed :: "state \<Rightarrow> bool" where
  "wellformed s \<longleftrightarrow> wf0 s \<and> maskY (buildMaskY s) = maskY s"

text \<open>
  One pass of the loop, one step interval after the last step, with the board held so that the
  orientation reads 90: in a cycle that runs top to bottom no flip is seen and the step is due.
\<close>

definition duePass :: "state \<Rightarrow> state" where
  "duePass s =
     (let t = lastStepMs s + stepIntervalMs s
      in loop \<lparr> angleX = 0, angleY = - 30, nowFlip = t, pot = 150, nowCycle = t, nowLoop = t \<rparr> s)"

text \<open>An upper bound on the number of steps until the cycle is finished.\<close>

definition stepsLeft :: "state \<Rightarrow> nat" where
  "stepsLeft s =
     (if finished s then 0
      else (64 - unat (grainIndex s)) * 16 +
           (if grainActive s then nat (grRow s + grCol s) + 1 else 16))"


section \<open>Words, bits and cells\<close>

lemma bit_test: "((w::u8) AND push_bit c 1 \<noteq> 0) = bit w c"
  by (simp add: bit_iff_and_push_bit_not_eq_0)

lemma bit_set: "bit ((w::u8) OR push_bit c 1) n = (bit w n \<or> (n = c \<and> c < 8))"
  by (auto simp add: bit_simps)

lemma unat_seven_minus: "r < 8 \<Longrightarrow> unat (7 - of_nat r :: u8) = 7 - r"
  by (simp add: unat_sub_if' unat_of_nat word_le_nat_alt)

lemma unat_of_nat_small: "r < 8 \<Longrightarrow> unat (of_nat r :: u8) = r"
  by (simp add: unat_of_nat)

lemma unat_index_succ: "g < 64 \<Longrightarrow> unat (g + 1 :: u8) = unat g + 1"
  by (simp add: unat_word_ariths word_less_nat_alt)

lemma index_lt_iff: "((g :: u8) < 64) = (unat g < 64)"
  by (simp add: word_less_nat_alt)

lemma index_ge_iff: "((g :: u8) \<ge> 64) = (unat g \<ge> 64)"
  by (simp add: word_le_nat_alt)

lemma distinct_cells: "distinct cells"
  by (simp add: cells_def distinct_product)

lemma set_cells: "set cells = {(r, c). r < 8 \<and> c < 8}"
  by (auto simp add: cells_def)

lemma length_cells: "length cells = 64"
  by (simp add: cells_def)

lemma count_card: "length (filter P cells) = card {x \<in> set cells. P x}"
  using distinct_cells by (simp add: distinct_length_filter Int_def conj_commute)

subsection \<open>The order that \<^verbatim>\<open>buildOrderDiagonal\<close> writes\<close>

lemma orderRow_built:
  "orderRow (buildOrderDiagonal globals0) =
    [0, 0, 1, 1, 0, 2, 1, 2, 0, 3, 2, 1, 3, 0, 4, 2, 3, 1, 4, 0, 5, 3, 2, 4, 1, 5, 0, 6, 3, 4, 2, 5,
     1, 6, 0, 7, 4, 3, 5, 2, 6, 1, 7, 4, 5, 3, 6, 2, 7, 5, 4, 6, 3, 7, 5, 6, 4, 7, 6, 5, 7, 6, 7, 7]"
  by code_simp

lemma orderCol_built:
  "orderCol (buildOrderDiagonal globals0) =
    [0, 1, 0, 1, 2, 0, 2, 1, 3, 0, 2, 3, 1, 4, 0, 3, 2, 4, 1, 5, 0, 3, 4, 2, 5, 1, 6, 0, 4, 3, 5, 2,
     6, 1, 7, 0, 4, 5, 3, 6, 2, 7, 1, 5, 4, 6, 3, 7, 2, 5, 6, 4, 7, 3, 6, 5, 7, 4, 6, 7, 5, 7, 6, 7]"
  by code_simp

lemma diagOrder_value:
  "diagOrder =
    [(0, 0), (0, 1), (1, 0), (1, 1), (0, 2), (2, 0), (1, 2), (2, 1), (0, 3),
     (3, 0), (2, 2), (1, 3), (3, 1), (0, 4), (4, 0), (2, 3), (3, 2), (1, 4),
     (4, 1), (0, 5), (5, 0), (3, 3), (2, 4), (4, 2), (1, 5), (5, 1), (0, 6),
     (6, 0), (3, 4), (4, 3), (2, 5), (5, 2), (1, 6), (6, 1), (0, 7), (7, 0),
     (4, 4), (3, 5), (5, 3), (2, 6), (6, 2), (1, 7), (7, 1), (4, 5), (5, 4),
     (3, 6), (6, 3), (2, 7), (7, 2), (5, 5), (4, 6), (6, 4), (3, 7), (7, 3),
     (5, 6), (6, 5), (4, 7), (7, 4), (6, 6), (5, 7), (7, 5), (6, 7), (7, 6),
     (7, 7)]"
  unfolding diagOrder_def drainOrder_def orderRow_built orderCol_built by simp

lemma length_diagOrder: "length diagOrder = 64"
  unfolding diagOrder_value by simp

lemma distinct_diagOrder: "distinct diagOrder"
  unfolding diagOrder_value by simp

lemma diagOrder_in_cells: "set diagOrder \<subseteq> set cells"
  unfolding diagOrder_value set_cells by simp

lemma set_diagOrder: "set diagOrder = set cells"
proof (rule card_subset_eq)
  show "finite (set cells)" by simp
  show "set diagOrder \<subseteq> set cells" by (rule diagOrder_in_cells)
  show "card (set diagOrder) = card (set cells)"
    by (simp add: distinct_card distinct_diagOrder distinct_cells length_diagOrder length_cells)
qed

lemma diagOrder_sorted:
  "sorted_wrt (\<lambda>(r, c) (r', c'). r + c < r' + c' \<or>
       (r + c = r' + c' \<and> \<bar>int r - int c\<bar> \<le> \<bar>int r' - int c'\<bar>)) diagOrder"
  unfolding diagOrder_value by simp

section \<open>The invariant of a run\<close>

lemma countY_card: "countY s = card (settled s)"
  unfolding countY_def count_card settled_def set_cells
  by (rule arg_cong [where f = card]) auto

lemma countX_card: "countX s = card (source s)"
  unfolding countX_def count_card source_def set_cells
  by (rule arg_cong [where f = card]) auto

lemma settled_cells: "settled s \<subseteq> set cells"
  by (auto simp add: settled_def set_cells)

lemma finite_settled: "finite (settled s)"
  by (rule finite_subset [OF settled_cells]) simp

lemma card_drop_diagOrder: "card (set (drop k diagOrder)) = 64 - k"
  by (simp add: distinct_card distinct_diagOrder length_diagOrder)


lemma wf0_countX: "wf0 s \<Longrightarrow> countX s = 64 - drained s"
  by (simp add: countX_card wf0_def card_drop_diagOrder)

text \<open>Only the whole grid has its far corner settled.\<close>

lemma corner_free:
  assumes "wf0 s" and "unat (grainIndex s) < 64"
  shows "(7, 7) \<notin> settled s"
proof
  assume corner: "(7, 7) \<in> settled s"
  have "set cells \<subseteq> settled s"
  proof
    fix x assume "x \<in> set cells"
    then obtain r c where x: "x = (r, c)" and "r \<le> 7" "c \<le> 7"
      by (auto simp add: set_cells)
    with corner assms(1) show "x \<in> settled s"
      unfolding wf0_def by blast
  qed
  with settled_cells [of s] have "settled s = set cells" by auto
  then have "card (settled s) = 64"
    by (simp add: distinct_card distinct_cells length_cells)
  with assms show False by (simp add: wf0_def)
qed


subsection \<open>How each part of a step changes the state\<close>

lemma stepS_eq:
  "stepS s = buildMaskY (if finished s then s
     else moveHole (if \<not> grainActive s \<and> grainIndex s < 64 then spawnGrain s
                    else if grainActive s then moveGrain s else s))"
  by (simp add: stepS_def stepAnimation_def renderFrame_def Let_def split: prod.splits)

lemma buildMaskY_fields:
  "buildMaskY s = s\<lparr> maskY := maskY (buildMaskY s) \<rparr>"
  by (simp add: buildMaskY_def Let_def)

lemma buildMaskY_cong:
  "yStatic s = yStatic t \<Longrightarrow> grainActive s = grainActive t \<Longrightarrow> grRow s = grRow t \<Longrightarrow>
   grCol s = grCol t \<Longrightarrow> maskY (buildMaskY s) = maskY (buildMaskY t)"
  by (simp add: buildMaskY_def Let_def)

lemma buildMaskY_idem: "maskY (buildMaskY (buildMaskY s)) = maskY (buildMaskY s)"
  by (rule buildMaskY_cong) (simp_all add: buildMaskY_def Let_def)

lemma moveHole_fields:
  "moveHole s = s\<lparr> topHoleActive := topHoleActive (moveHole s), holeRow := holeRow (moveHole s),
                   holeCol := holeCol (moveHole s) \<rparr>"
  by (simp add: moveHole_def)

lemma tryMove_alt:
  fixes s
  defines "d \<equiv> grRow s > 0 \<and> grCol s > 0 \<and> \<not> yStatic s ! nat (grRow s - 1) ! nat (grCol s - 1)"
    and "cl \<equiv> grCol s > 0 \<and> \<not> yStatic s ! nat (grRow s) ! nat (grCol s - 1)"
    and "cr \<equiv> grRow s > 0 \<and> \<not> yStatic s ! nat (grRow s - 1) ! nat (grCol s)"
  shows "tryMove s =
     (if d then (s\<lparr> grRow := grRow s - 1, grCol := grCol s - 1 \<rparr>, True)
      else if cl \<and> cr
      then (if sideToggle s then (s\<lparr> grRow := grRow s - 1, sideToggle := False \<rparr>, True)
            else (s\<lparr> grCol := grCol s - 1, sideToggle := True \<rparr>, True))
      else if cl then (s\<lparr> grCol := grCol s - 1 \<rparr>, True)
      else if cr then (s\<lparr> grRow := grRow s - 1 \<rparr>, True)
      else (s, False))"
  unfolding tryMove_def d_def [symmetric] cl_def [symmetric] cr_def [symmetric]
  by (cases d; cases cl; cases cr; cases "sideToggle s") (simp_all add: Let_def)

lemma tryMove_moved:
  assumes "tryMove s = (s', True)"
  shows "\<exists>a b t. s' = s\<lparr> grRow := a, grCol := b, sideToggle := t \<rparr> \<and>
           (grRow s \<ge> 0 \<longrightarrow> 0 \<le> a) \<and> a \<le> grRow s \<and> (grCol s \<ge> 0 \<longrightarrow> 0 \<le> b) \<and> b \<le> grCol s \<and>
           a + b < grRow s + grCol s \<and> \<not> yStatic s ! nat a ! nat b"
proof -
  define d where "d \<longleftrightarrow> grRow s > 0 \<and> grCol s > 0 \<and> \<not> yStatic s ! nat (grRow s - 1) ! nat (grCol s - 1)"
  define cl where "cl \<longleftrightarrow> grCol s > 0 \<and> \<not> yStatic s ! nat (grRow s) ! nat (grCol s - 1)"
  define cr where "cr \<longleftrightarrow> grRow s > 0 \<and> \<not> yStatic s ! nat (grRow s - 1) ! nat (grCol s)"
  note alt = tryMove_alt [of s, folded d_def cl_def cr_def]
  from assms have s': "s' = fst (tryMove s)" and moved: "snd (tryMove s)" by simp_all
  have goDiag: ?thesis if "s' = s\<lparr> grRow := grRow s - 1, grCol := grCol s - 1, sideToggle := t \<rparr>" d for t
    using that by (intro exI conjI) (assumption, simp_all add: d_def)
  have goLeft: ?thesis if "s' = s\<lparr> grRow := grRow s, grCol := grCol s - 1, sideToggle := t \<rparr>" cl for t
    using that by (intro exI conjI) (assumption, simp_all add: cl_def)
  have goRight: ?thesis if "s' = s\<lparr> grRow := grRow s - 1, grCol := grCol s, sideToggle := t \<rparr>" cr for t
    using that by (intro exI conjI) (assumption, simp_all add: cr_def)
  consider (diag) d | (both1) "\<not> d" cl cr "sideToggle s" | (both0) "\<not> d" cl cr "\<not> sideToggle s"
    | (left) "\<not> d" cl "\<not> cr" | (right) "\<not> d" "\<not> cl" cr | (none) "\<not> d" "\<not> cl" "\<not> cr"
    by blast
  then show ?thesis
  proof cases
    case diag
    then have "s' = s\<lparr> grRow := grRow s - 1, grCol := grCol s - 1, sideToggle := sideToggle s \<rparr>"
      unfolding s' alt by simp
    then show ?thesis using diag by (rule goDiag)
  next
    case both1
    then have "s' = s\<lparr> grRow := grRow s - 1, grCol := grCol s, sideToggle := False \<rparr>"
      unfolding s' alt by simp
    then show ?thesis using both1(3) by (rule goRight)
  next
    case both0
    then have "s' = s\<lparr> grRow := grRow s, grCol := grCol s - 1, sideToggle := True \<rparr>"
      unfolding s' alt by simp
    then show ?thesis using both0(2) by (rule goLeft)
  next
    case left
    then have "s' = s\<lparr> grRow := grRow s, grCol := grCol s - 1, sideToggle := sideToggle s \<rparr>"
      unfolding s' alt by simp
    then show ?thesis using left(2) by (rule goLeft)
  next
    case right
    then have "s' = s\<lparr> grRow := grRow s - 1, grCol := grCol s, sideToggle := sideToggle s \<rparr>"
      unfolding s' alt by simp
    then show ?thesis using right(3) by (rule goRight)
  next
    case none
    with moved show ?thesis unfolding alt by simp
  qed
qed

lemma tryMove_stuck:
  assumes "tryMove s = (s', False)"
  shows "s' = s \<and>
     \<not> (grRow s > 0 \<and> grCol s > 0 \<and> \<not> yStatic s ! nat (grRow s - 1) ! nat (grCol s - 1)) \<and>
     \<not> (grCol s > 0 \<and> \<not> yStatic s ! nat (grRow s) ! nat (grCol s - 1)) \<and>
     \<not> (grRow s > 0 \<and> \<not> yStatic s ! nat (grRow s - 1) ! nat (grCol s))"
proof -
  define d where "d \<longleftrightarrow> grRow s > 0 \<and> grCol s > 0 \<and> \<not> yStatic s ! nat (grRow s - 1) ! nat (grCol s - 1)"
  define cl where "cl \<longleftrightarrow> grCol s > 0 \<and> \<not> yStatic s ! nat (grRow s) ! nat (grCol s - 1)"
  define cr where "cr \<longleftrightarrow> grRow s > 0 \<and> \<not> yStatic s ! nat (grRow s - 1) ! nat (grCol s)"
  note alt = tryMove_alt [of s, folded d_def cl_def cr_def]
  from assms have s': "s' = fst (tryMove s)" and stuck: "\<not> snd (tryMove s)" by simp_all
  from stuck have "\<not> d \<and> \<not> cl \<and> \<not> cr"
    unfolding alt by (simp split: if_splits)
  moreover from this have "s' = s" unfolding s' alt by simp
  ultimately show ?thesis unfolding d_def cl_def cr_def by blast
qed

lemma bit_set2: "bit ((w::u8) OR 2 ^ c) n = (bit w n \<or> (n = c \<and> c < 8))"
  using bit_set [of w c n] by simp

lemma bit_clear2: "bit ((w::u8) AND NOT (2 ^ c)) n = (bit w n \<and> n \<noteq> c)"
  by (auto simp add: bit_and_iff bit_not_iff bit_exp_iff dest: bit_imp_le_length)

subsection \<open>The invariant is kept\<close>

lemma length_order_built:
  "length (orderRow (buildOrderDiagonal globals0)) = 64"
  "length (orderCol (buildOrderDiagonal globals0)) = 64"
  unfolding orderRow_built orderCol_built by simp_all

lemma order_nth:
  assumes "wf0 s" and "k < 64"
  shows "(unat (orderRow s ! k), unat (orderCol s ! k)) = diagOrder ! k"
  using assms by (simp add: wf0_def diagOrder_def drainOrder_def length_order_built)

lemma diagOrder_nth_cell: "k < 64 \<Longrightarrow> diagOrder ! k \<in> set cells"
  using diagOrder_in_cells nth_mem [of k diagOrder] by (auto simp add: length_diagOrder)

lemma drop_next:
  assumes "k < 64"
  shows "set (drop (Suc k) diagOrder) = set (drop k diagOrder) - {diagOrder ! k}"
proof -
  have split: "drop k diagOrder = diagOrder ! k # drop (Suc k) diagOrder"
    using assms by (simp add: Cons_nth_drop_Suc length_diagOrder)
  have "distinct (drop k diagOrder)"
    by (simp add: distinct_diagOrder)
  then have "diagOrder ! k \<notin> set (drop (Suc k) diagOrder)"
    unfolding split by simp
  then show ?thesis unfolding split by auto
qed

lemma source_clear:
  fixes m :: "u8 list"
  assumes "length m = 8" and "r0 < 8"
  shows "{(r, c). r < 8 \<and> c < 8 \<and> bit ((m[r0 := (m ! r0) AND NOT (push_bit c0 1)]) ! r) c} =
         {(r, c). r < 8 \<and> c < 8 \<and> bit (m ! r) c} - {(r0, c0)}"
proof -
  have "bit ((m[r0 := (m ! r0) AND NOT (push_bit c0 1)]) ! r) c =
        (bit (m ! r) c \<and> (r, c) \<noteq> (r0, c0))" if "r < 8" for r c
    using that assms by (cases "r = r0") (simp_all add: bit_clear2)
  then show ?thesis by auto
qed

lemma settled_mark:
  assumes "length ys = 8" and "\<forall>r<8. length (ys ! r) = 8" and "r0 < 8" and "c0 < 8"
  shows "{(r, c). r < 8 \<and> c < 8 \<and> (ys[r0 := (ys ! r0)[c0 := True]]) ! r ! c} =
         insert (r0, c0) {(r, c). r < 8 \<and> c < 8 \<and> ys ! r ! c}"
proof -
  have "(ys[r0 := (ys ! r0)[c0 := True]]) ! r ! c = (ys ! r ! c \<or> (r, c) = (r0, c0))"
    if "r < 8" "c < 8" for r c
    using that assms by (cases "r = r0"; cases "c = c0") (simp_all add: nth_list_update)
  with assms show ?thesis by auto
qed

lemma wf0_spawn:
  assumes wf: "wf0 s" and idle: "\<not> grainActive s" and more: "unat (grainIndex s) < 64"
  shows "wf0 (spawnGrain s)"
proof -
  let ?k = "unat (grainIndex s)"
  obtain r0 c0 where cell: "diagOrder ! ?k = (r0, c0)" by (cases "diagOrder ! ?k")
  with order_nth [OF wf more]
  have rc: "unat (orderRow s ! ?k) = r0" "unat (orderCol s ! ?k) = c0" by simp_all
  from diagOrder_nth_cell [OF more] cell have r0: "r0 < 8" by (simp add: set_cells)
  from wf have len: "length (maskX s) = 8" by (simp add: wf0_def)
  have "source (spawnGrain s) = source s - {(r0, c0)}"
    unfolding source_def spawnGrain_def Let_def rc
    using source_clear [OF len r0] by simp
  also have "\<dots> = set (drop (Suc ?k) diagOrder)"
    using wf idle drop_next [OF more] cell by (simp add: wf0_def drained_def)
  finally have src: "source (spawnGrain s) = set (drop (Suc ?k) diagOrder)" .
  have corner: "(7, 7) \<notin> settled s" using wf more by (rule corner_free)
  have same: "settled (spawnGrain s) = settled s"
    by (simp add: settled_def spawnGrain_def Let_def)
  show ?thesis
    unfolding wf0_def same
    using wf more corner src
    by (simp add: wf0_def drained_def spawnGrain_def Let_def NECK_ROW_def NECK_COL_def)
qed

lemma wf0_move:
  assumes "wf0 s" and "grainActive s" and "0 \<le> a" "a \<le> grRow s" "0 \<le> b" "b \<le> grCol s"
    and "\<not> yStatic s ! nat a ! nat b"
  shows "wf0 (s\<lparr> grRow := a, grCol := b, sideToggle := t \<rparr>)"
  using assms by (simp add: wf0_def settled_def source_def drained_def)

lemma settleGrain_fields:
  assumes "0 \<le> grRow s" "grRow s < 8" "0 \<le> grCol s" "grCol s < 8"
  shows "settleGrain s =
     s\<lparr> yStatic := (yStatic s)[nat (grRow s) := (yStatic s ! nat (grRow s))[nat (grCol s) := True]],
        grainActive := False, grainIndex := grainIndex s + 1,
        finished := (finished s \<or> grainIndex s + 1 \<ge> 64) \<rparr>"
  using assms by (simp add: settleGrain_def Let_def)

lemma wf0_settle:
  assumes wf: "wf0 s" and act: "grainActive s"
    and left: "grCol s > 0 \<longrightarrow> yStatic s ! nat (grRow s) ! nat (grCol s - 1)"
    and down: "grRow s > 0 \<longrightarrow> yStatic s ! nat (grRow s - 1) ! nat (grCol s)"
  shows "wf0 (settleGrain s)"
proof -
  define r c where "r = nat (grRow s)" and "c = nat (grCol s)"
  let ?k = "unat (grainIndex s)"
  from wf act have bounds: "0 \<le> grRow s" "grRow s < 8" "0 \<le> grCol s" "grCol s < 8"
    and k: "?k < 64" and free: "(r, c) \<notin> settled s"
    by (simp_all add: wf0_def r_def c_def)
  from bounds have rc: "r < 8" "c < 8" by (simp_all add: r_def c_def)
  from wf have shape: "length (yStatic s) = 8" "\<forall>r<8. length (yStatic s ! r) = 8"
    by (simp_all add: wf0_def)
  note fields = settleGrain_fields [OF bounds, folded r_def c_def]
  have set': "settled (settleGrain s) = insert (r, c) (settled s)"
    unfolding fields settled_def using settled_mark [OF shape rc] by simp
  have src': "source (settleGrain s) = source s"
    unfolding fields source_def by simp
  have idx: "unat (grainIndex s + 1) = Suc ?k"
    using k by (simp add: unat_index_succ index_lt_iff)
  have card': "card (settled (settleGrain s)) = Suc ?k"
    unfolding set' using free wf by (simp add: finite_settled wf0_def)
  have leftN: "(r, c - 1) \<in> settled s" if "c > 0"
    using that left rc bounds by (simp add: settled_def r_def c_def nat_diff_distrib)
  have downN: "(r - 1, c) \<in> settled s" if "r > 0"
    using that down rc bounds by (simp add: settled_def r_def c_def nat_diff_distrib)
  have mono: "(r', c') \<in> insert (r, c) (settled s)"
    if "(r0, c0) \<in> insert (r, c) (settled s)" "r' \<le> r0" "c' \<le> c0" for r0 c0 r' c'
  proof (cases "(r0, c0) = (r, c)")
    case False
    with that have "(r0, c0) \<in> settled s" by blast
    with that wf have "(r', c') \<in> settled s" unfolding wf0_def by blast
    then show ?thesis by simp
  next
    case True
    show ?thesis
    proof (cases "c' < c")
      case True
      then have "(r, c - 1) \<in> settled s" by (intro leftN) simp
      moreover have "r' \<le> r" "c' \<le> c - 1" using that \<open>(r0, c0) = (r, c)\<close> True by simp_all
      ultimately have "(r', c') \<in> settled s" using wf unfolding wf0_def by blast
      then show ?thesis by simp
    next
      case cEq: False
      show ?thesis
      proof (cases "r' < r")
        case True
        then have "(r - 1, c) \<in> settled s" by (intro downN) simp
        moreover have "r' \<le> r - 1" "c' \<le> c" using that \<open>(r0, c0) = (r, c)\<close> True by simp_all
        ultimately have "(r', c') \<in> settled s" using wf unfolding wf0_def by blast
        then show ?thesis by simp
      next
        case False
        with cEq that \<open>(r0, c0) = (r, c)\<close> have "r' = r" "c' = c" by simp_all
        then show ?thesis by simp
      qed
    qed
  qed
  from wf k have "\<not> finished s" by (simp add: wf0_def)
  then have fin: "(finished s \<or> grainIndex s + 1 \<ge> 64) = (Suc ?k = 64)"
    using k idx by (auto simp add: index_ge_iff)
  from wf have ord: "orderRow s = orderRow (buildOrderDiagonal globals0)"
      "orderCol s = orderCol (buildOrderDiagonal globals0)"
    and lenX: "length (maskX s) = 8"
    and src: "source s = set (drop (drained s) diagOrder)"
    and old: "\<And>r0 c0 r' c'. (r0, c0) \<in> settled s \<Longrightarrow> r' \<le> r0 \<Longrightarrow> c' \<le> c0 \<Longrightarrow> (r', c') \<in> settled s"
    unfolding wf0_def by blast+
  have lenY: "length (yStatic (settleGrain s)) = 8"
    unfolding fields using shape by simp
  have lenRow: "\<forall>q<8. length (yStatic (settleGrain s) ! q) = 8"
    unfolding fields using shape rc by (simp add: nth_list_update)
  have act': "grainActive (settleGrain s) = False"
    and idx': "grainIndex (settleGrain s) = grainIndex s + 1"
    and fin': "finished (settleGrain s) = (Suc ?k = 64)"
    and ord': "orderRow (settleGrain s) = orderRow s" "orderCol (settleGrain s) = orderCol s"
    and lenX': "length (maskX (settleGrain s)) = length (maskX s)"
    unfolding fields using fin by simp_all
  have drained': "drained (settleGrain s) = drained s"
    using act by (simp add: drained_def act' idx' idx)
  show ?thesis
    unfolding wf0_def
  proof (intro conjI)
    show "orderRow (settleGrain s) = orderRow (buildOrderDiagonal globals0)"
      "orderCol (settleGrain s) = orderCol (buildOrderDiagonal globals0)"
      using ord ord' by simp_all
    show "length (maskX (settleGrain s)) = 8" using lenX lenX' by simp
    show "length (yStatic (settleGrain s)) = 8" by (rule lenY)
    show "\<forall>q<8. length (yStatic (settleGrain s) ! q) = 8" by (rule lenRow)
    show "unat (grainIndex (settleGrain s)) \<le> 64" using k by (simp add: idx' idx)
    show "finished (settleGrain s) = (unat (grainIndex (settleGrain s)) = 64)"
      by (simp add: fin' idx' idx)
    show "grainActive (settleGrain s) \<longrightarrow>
        unat (grainIndex (settleGrain s)) < 64 \<and> 0 \<le> grRow (settleGrain s) \<and>
        grRow (settleGrain s) < 8 \<and> 0 \<le> grCol (settleGrain s) \<and> grCol (settleGrain s) < 8 \<and>
        (nat (grRow (settleGrain s)), nat (grCol (settleGrain s))) \<notin> settled (settleGrain s)"
      by (simp add: act')
    show "\<forall>r0 c0 r' c'. (r0, c0) \<in> settled (settleGrain s) \<and> r' \<le> r0 \<and> c' \<le> c0 \<longrightarrow>
        (r', c') \<in> settled (settleGrain s)"
      unfolding set' using mono by blast
    show "card (settled (settleGrain s)) = unat (grainIndex (settleGrain s))"
      by (simp add: card' idx' idx)
    show "source (settleGrain s) = set (drop (drained (settleGrain s)) diagOrder)"
      by (simp add: src' src drained')
  qed
qed

lemma wf0_moveGrain:
  assumes wf: "wf0 s" and act: "grainActive s"
  shows "wf0 (moveGrain s)"
proof (cases "snd (tryMove s)")
  case True
  then have tm: "tryMove s = (fst (tryMove s), True)" by (simp add: prod_eq_iff)
  from tryMove_moved [OF tm] obtain a b t where
    s': "fst (tryMove s) = s\<lparr> grRow := a, grCol := b, sideToggle := t \<rparr>"
    and ab: "grRow s \<ge> 0 \<longrightarrow> 0 \<le> a" "a \<le> grRow s" "grCol s \<ge> 0 \<longrightarrow> 0 \<le> b" "b \<le> grCol s"
      "\<not> yStatic s ! nat a ! nat b"
    by blast
  from wf act have "0 \<le> grRow s" "0 \<le> grCol s" by (simp_all add: wf0_def)
  with ab have "wf0 (s\<lparr> grRow := a, grCol := b, sideToggle := t \<rparr>)"
    by (intro wf0_move [OF wf act]) simp_all
  with True s' show ?thesis by (simp add: moveGrain_def case_prod_beta)
next
  case False
  then have tm: "tryMove s = (fst (tryMove s), False)" by (simp add: prod_eq_iff)
  from tryMove_stuck [OF tm] have same: "fst (tryMove s) = s"
    and "grCol s > 0 \<longrightarrow> yStatic s ! nat (grRow s) ! nat (grCol s - 1)"
    and "grRow s > 0 \<longrightarrow> yStatic s ! nat (grRow s - 1) ! nat (grCol s)"
    by blast+
  then have "wf0 (settleGrain s)" by (intro wf0_settle [OF wf act])
  with False same show ?thesis by (simp add: moveGrain_def case_prod_beta)
qed

lemma bit_full_int: "bit (255::int) n = (n < 8)"
proof -
  have "(255::int) = mask 8" by (simp add: mask_eq_exp_minus_1)
  then show ?thesis by (simp only: bit_mask_iff) simp
qed

lemma fold_skip:
  "\<forall>x\<in>set xs. \<not> P x \<Longrightarrow> fold (\<lambda>x m. if P x then F x m else m) xs m = m"
  by (induction xs arbitrary: m) simp_all

lemma fold_skip_rows:
  assumes "\<forall>r\<in>set rs. \<forall>c\<in>set cs. \<not> P r c"
  shows "fold (\<lambda>r m. fold (\<lambda>c m. if P r c then F r c m else m) cs m) rs m = m"
  using assms by (induction rs arbitrary: m) (simp_all add: fold_skip)

lemma buildMaskY_empty:
  assumes "yStatic s = replicate 8 (replicate 8 False)" and "\<not> grainActive s"
  shows "maskY (buildMaskY s) = replicate 8 0"
proof -
  have "fold (\<lambda>r m. fold (\<lambda>c m. if yStatic s ! r ! c then m[r := (m ! r) OR push_bit c 1] else m)
           [0..<8] m) [0..<8] (replicate 8 (0 :: u8)) = replicate 8 0"
    by (rule fold_skip_rows) (simp add: assms)
  with assms(2) show ?thesis by (simp add: buildMaskY_def Let_def)
qed

lemma wf0_ignores:
  "wf0 (s\<lparr> maskY := m \<rparr>) = wf0 s"
  "wf0 (s\<lparr> lastGravity := g \<rparr>) = wf0 s"
  "wf0 (s\<lparr> lastStepMs := n \<rparr>) = wf0 s"
  "wf0 (s\<lparr> topHoleActive := h, holeRow := hr, holeCol := hc \<rparr>) = wf0 s"
  by (simp_all add: wf0_def settled_def source_def drained_def)

lemma wf0_buildMaskY: "wf0 (buildMaskY s) = wf0 s"
  by (subst buildMaskY_fields) (simp only: wf0_ignores)

lemma wf0_moveHole: "wf0 (moveHole s) = wf0 s"
  by (subst moveHole_fields) (simp only: wf0_ignores)

lemma wellformed_buildMaskY: "wf0 s \<Longrightarrow> wellformed (buildMaskY s)"
  by (simp add: wellformed_def wf0_buildMaskY buildMaskY_idem)

lemma wellformed_ignores:
  "wellformed (s\<lparr> lastGravity := g \<rparr>) = wellformed s"
  "wellformed (s\<lparr> lastStepMs := n \<rparr>) = wellformed s"
proof -
  have "maskY (buildMaskY (s\<lparr> lastGravity := g \<rparr>)) = maskY (buildMaskY s)"
    by (rule buildMaskY_cong) simp_all
  then show "wellformed (s\<lparr> lastGravity := g \<rparr>) = wellformed s"
    by (simp add: wellformed_def wf0_ignores)
  have "maskY (buildMaskY (s\<lparr> lastStepMs := n \<rparr>)) = maskY (buildMaskY s)"
    by (rule buildMaskY_cong) simp_all
  then show "wellformed (s\<lparr> lastStepMs := n \<rparr>) = wellformed s"
    by (simp add: wellformed_def wf0_ignores)
qed

lemma wellformed_start:
  assumes "orderRow s = orderRow (buildOrderDiagonal globals0)"
    and "orderCol s = orderCol (buildOrderDiagonal globals0)"
  shows "wellformed (startNewCycle d v now s)"
proof -
  let ?t = "startNewCycle d v now s"
  have fields: "yStatic ?t = replicate 8 (replicate 8 False)" "maskX ?t = replicate 8 0xFF"
    "maskY ?t = replicate 8 0" "grainActive ?t = False" "grainIndex ?t = 0" "finished ?t = False"
    "orderRow ?t = orderRow s" "orderCol ?t = orderCol s"
    by (simp_all add: startNewCycle_def Let_def)
  have none: "settled ?t = {}"
    unfolding settled_def fields by auto
  have "source ?t = set cells"
    unfolding source_def fields set_cells by (auto simp add: bit_full_int)
  then have all: "source ?t = set (drop (drained ?t) diagOrder)"
    by (simp add: drained_def fields set_diagOrder)
  have "wf0 ?t"
    unfolding wf0_def none using assms all by (simp add: fields)
  moreover have "maskY (buildMaskY ?t) = maskY ?t"
    using buildMaskY_empty [of ?t] by (simp add: fields)
  ultimately show ?thesis by (simp add: wellformed_def)
qed

lemma wellformed_stepS:
  assumes "wellformed s"
  shows "wellformed (stepS s)"
proof -
  from assms have wf: "wf0 s" by (simp add: wellformed_def)
  have "wf0 (if finished s then s
     else moveHole (if \<not> grainActive s \<and> grainIndex s < 64 then spawnGrain s
                    else if grainActive s then moveGrain s else s))"
    using wf by (simp add: wf0_moveHole wf0_spawn wf0_moveGrain index_lt_iff)
  then show ?thesis unfolding stepS_eq by (rule wellformed_buildMaskY)
qed

lemma stepS_finished:
  assumes "wellformed s" and "finished s"
  shows "stepS s = s"
proof -
  have "stepS s = s\<lparr> maskY := maskY (buildMaskY s) \<rparr>"
    using assms(2) buildMaskY_fields [of s] by (simp add: stepS_eq)
  with assms(1) show ?thesis by (simp add: wellformed_def)
qed

lemma wellformed_checkFlip:
  assumes "wellformed s"
  shows "wellformed (checkFlip x y now v nowC s)"
proof -
  from assms have "orderRow s = orderRow (buildOrderDiagonal globals0)"
    "orderCol s = orderCol (buildOrderDiagonal globals0)"
    by (simp_all add: wellformed_def wf0_def)
  then have "wellformed (startNewCycle d v nowC (s\<lparr> lastFlipMs := now \<rparr>))" for d
    by (intro wellformed_start) simp_all
  with assms show ?thesis
    by (simp add: checkFlip_def Let_def wellformed_ignores)
qed

lemma wellformed_loop:
  assumes "wellformed s"
  shows "wellformed (loop i s)"
  using wellformed_checkFlip [OF assms]
  by (simp add: loop_def Let_def wellformed_stepS wellformed_ignores)

lemma wellformed_setupBoard: "wellformed (setupBoard x y v now)"
  unfolding setupBoard_def Let_def by (rule wellformed_start) simp_all

lemma reachable_wellformed: "reachable s \<Longrightarrow> wellformed s"
  by (induction rule: reachable.induct) (simp_all add: wellformed_setupBoard wellformed_loop)

subsection \<open>The state after \<^verbatim>\<open>setup()\<close>\<close>

lemma boot_fields:
  "finished (setupBoard x y v now) = False"
  "grainActive (setupBoard x y v now) = False"
  "grainIndex (setupBoard x y v now) = 0"
  "topToBottom (setupBoard x y v now) = (getGravity x y globals0 = 90)"
  "lastGravity (setupBoard x y v now) = getGravity x y globals0"
  "lastFlipMs (setupBoard x y v now) = 0"
  "lastStepMs (setupBoard x y v now) = now"
  "targetMs (setupBoard x y v now) = getDurationFromPot v"
  by (simp_all add: setupBoard_def startNewCycle_def Let_def getGravity_def buildOrderDiagonal_def
      case_prod_beta globals0_def)

subsection \<open>Fields that the parts of a step leave alone\<close>

lemma buildMaskY_keeps [simp]:
  "finished (buildMaskY s) = finished s" "grainIndex (buildMaskY s) = grainIndex s"
  "grainActive (buildMaskY s) = grainActive s" "grRow (buildMaskY s) = grRow s"
  "grCol (buildMaskY s) = grCol s" "yStatic (buildMaskY s) = yStatic s"
  "maskX (buildMaskY s) = maskX s" "topHoleActive (buildMaskY s) = topHoleActive s"
  "holeRow (buildMaskY s) = holeRow s" "holeCol (buildMaskY s) = holeCol s"
  "topToBottom (buildMaskY s) = topToBottom s" "lastStepMs (buildMaskY s) = lastStepMs s"
  "stepIntervalMs (buildMaskY s) = stepIntervalMs s" "sideToggle (buildMaskY s) = sideToggle s"
  by (simp_all add: buildMaskY_def Let_def)

lemma moveHole_keeps [simp]:
  "finished (moveHole s) = finished s" "grainIndex (moveHole s) = grainIndex s"
  "grainActive (moveHole s) = grainActive s" "grRow (moveHole s) = grRow s"
  "grCol (moveHole s) = grCol s" "yStatic (moveHole s) = yStatic s"
  "maskX (moveHole s) = maskX s"
  "topToBottom (moveHole s) = topToBottom s" "lastStepMs (moveHole s) = lastStepMs s"
  "stepIntervalMs (moveHole s) = stepIntervalMs s" "sideToggle (moveHole s) = sideToggle s"
  by (simp_all add: moveHole_def)

lemma spawnGrain_keeps [simp]:
  "finished (spawnGrain s) = finished s" "grainIndex (spawnGrain s) = grainIndex s"
  "grainActive (spawnGrain s) = True" "grRow (spawnGrain s) = 7" "grCol (spawnGrain s) = 7"
  "yStatic (spawnGrain s) = yStatic s" "topHoleActive (spawnGrain s) = True"
  "holeRow (spawnGrain s) = 7" "holeCol (spawnGrain s) = 7"
  "topToBottom (spawnGrain s) = topToBottom s" "lastStepMs (spawnGrain s) = lastStepMs s"
  "stepIntervalMs (spawnGrain s) = stepIntervalMs s" "sideToggle (spawnGrain s) = sideToggle s"
  by (simp_all add: spawnGrain_def Let_def NECK_ROW_def NECK_COL_def)

lemma settleGrain_keeps [simp]:
  "grainIndex (settleGrain s) = grainIndex s + 1" "grainActive (settleGrain s) = False"
  "finished (settleGrain s) = (finished s \<or> grainIndex s + 1 \<ge> 64)"
  "grRow (settleGrain s) = grRow s" "grCol (settleGrain s) = grCol s"
  "maskX (settleGrain s) = maskX s" "topHoleActive (settleGrain s) = topHoleActive s"
  "holeRow (settleGrain s) = holeRow s" "holeCol (settleGrain s) = holeCol s"
  "topToBottom (settleGrain s) = topToBottom s" "lastStepMs (settleGrain s) = lastStepMs s"
  "stepIntervalMs (settleGrain s) = stepIntervalMs s" "sideToggle (settleGrain s) = sideToggle s"
  by (simp_all add: settleGrain_def Let_def)

text \<open>The two outcomes of the movement branch.\<close>

lemma moveGrain_cases:
  obtains (moved) a b t where "moveGrain s = s\<lparr> grRow := a, grCol := b, sideToggle := t \<rparr>"
      "grRow s \<ge> 0 \<longrightarrow> 0 \<le> a" "a \<le> grRow s" "grCol s \<ge> 0 \<longrightarrow> 0 \<le> b" "b \<le> grCol s"
      "a + b < grRow s + grCol s" "\<not> yStatic s ! nat a ! nat b"
  | (stuck) "moveGrain s = settleGrain s"
      "grCol s > 0 \<longrightarrow> yStatic s ! nat (grRow s) ! nat (grCol s - 1)"
      "grRow s > 0 \<longrightarrow> yStatic s ! nat (grRow s - 1) ! nat (grCol s)"
      "grRow s > 0 \<and> grCol s > 0 \<longrightarrow> yStatic s ! nat (grRow s - 1) ! nat (grCol s - 1)"
proof (cases "snd (tryMove s)")
  case True
  then have tm: "tryMove s = (fst (tryMove s), True)" by (simp add: prod_eq_iff)
  from tryMove_moved [OF tm] obtain a b t where
    ab: "fst (tryMove s) = s\<lparr> grRow := a, grCol := b, sideToggle := t \<rparr>"
    "grRow s \<ge> 0 \<longrightarrow> 0 \<le> a" "a \<le> grRow s" "grCol s \<ge> 0 \<longrightarrow> 0 \<le> b" "b \<le> grCol s"
    "a + b < grRow s + grCol s" "\<not> yStatic s ! nat a ! nat b"
    by blast
  from True ab(1) have "moveGrain s = s\<lparr> grRow := a, grCol := b, sideToggle := t \<rparr>"
    by (simp add: moveGrain_def case_prod_beta)
  then show ?thesis using ab(2-7) by (rule moved)
next
  case False
  then have tm: "tryMove s = (fst (tryMove s), False)" by (simp add: prod_eq_iff)
  from tryMove_stuck [OF tm] have same: "fst (tryMove s) = s"
    and blocked: "grCol s > 0 \<longrightarrow> yStatic s ! nat (grRow s) ! nat (grCol s - 1)"
      "grRow s > 0 \<longrightarrow> yStatic s ! nat (grRow s - 1) ! nat (grCol s)"
      "grRow s > 0 \<and> grCol s > 0 \<longrightarrow> yStatic s ! nat (grRow s - 1) ! nat (grCol s - 1)"
    by blast+
  from False same have "moveGrain s = settleGrain s"
    by (simp add: moveGrain_def case_prod_beta)
  then show ?thesis using blocked by (rule stuck)
qed

lemma moveGrain_keeps [simp]:
  "maskX (moveGrain s) = maskX s" "topHoleActive (moveGrain s) = topHoleActive s"
  "holeRow (moveGrain s) = holeRow s" "holeCol (moveGrain s) = holeCol s"
  "topToBottom (moveGrain s) = topToBottom s" "lastStepMs (moveGrain s) = lastStepMs s"
  "stepIntervalMs (moveGrain s) = stepIntervalMs s"
  by (cases s rule: moveGrain_cases; simp)+

lemma stepS_keeps [simp]:
  "topToBottom (stepS s) = topToBottom s" "lastStepMs (stepS s) = lastStepMs s"
  "stepIntervalMs (stepS s) = stepIntervalMs s"
  by (simp_all add: stepS_eq)

lemma stepS_spawn:
  assumes "\<not> finished s" "\<not> grainActive s" "grainIndex s < 64"
  shows "stepS s = buildMaskY (moveHole (spawnGrain s))"
  using assms by (simp add: stepS_eq)

lemma stepS_move:
  assumes "\<not> finished s" "grainActive s"
  shows "stepS s = buildMaskY (moveHole (moveGrain s))"
  using assms by (simp add: stepS_eq)



section \<open>A run with the hourglass standing still\<close>

lemma duePass_eq:
  assumes "topToBottom s"
  shows "duePass s = stepS (s\<lparr> lastGravity := 90, lastStepMs := lastStepMs s + stepIntervalMs s \<rparr>)"
  using assms
  by (simp add: duePass_def loop_def checkFlip_def getGravity_def Let_def ACC_THRESHOLD_LOW_def)

lemma stepsLeft_stepS:
  assumes wf: "wellformed s" and run: "\<not> finished s"
  shows "stepsLeft (stepS s) < stepsLeft s"
proof -
  from wf have wf0: "wf0 s" by (simp add: wellformed_def)
  with run have k: "unat (grainIndex s) < 64" unfolding wf0_def by auto
  show ?thesis
  proof (cases "grainActive s")
    case False
    with run k show ?thesis
      by (simp add: stepS_spawn index_lt_iff stepsLeft_def)
  next
    case True
    from wf0 True have pos: "0 \<le> grRow s" "0 \<le> grCol s" by (simp_all add: wf0_def)
    have idx: "unat (grainIndex s + 1) = Suc (unat (grainIndex s))"
      using k by (simp add: unat_index_succ index_lt_iff)
    show ?thesis
    proof (cases s rule: moveGrain_cases)
      case (moved a b t)
      with run True pos show ?thesis
        by (simp add: stepS_move stepsLeft_def)
    next
      case stuck
      have less: "(63 - j) * 16 + 16 < (64 - j) * 16 + (m + 1)" if "j < 63" for j m :: nat
        using that by simp
      from stuck run True have after: "finished (stepS s) = (63 \<le> unat (grainIndex s))"
        "grainActive (stepS s) = False" "unat (grainIndex (stepS s)) = Suc (unat (grainIndex s))"
        by (simp_all add: stepS_move idx index_ge_iff)
      show ?thesis
      proof (cases "unat (grainIndex s) = 63")
        case True
        with run show ?thesis by (simp add: stepsLeft_def after)
      next
        case False
        with k have "unat (grainIndex s) < 63" by simp
        with run \<open>grainActive s\<close> less [OF this] show ?thesis
          by (simp add: stepsLeft_def after)
      qed
    qed
  qed
qed

lemma stepsLeft_ignores:
  "stepsLeft (s\<lparr> lastGravity := g, lastStepMs := n \<rparr>) = stepsLeft s"
  by (simp add: stepsLeft_def)

lemma duePass_finished:
  assumes "wellformed s" and "topToBottom s" and "finished s"
  shows "finished (duePass s)"
proof -
  let ?t = "s\<lparr> lastGravity := 90, lastStepMs := lastStepMs s + stepIntervalMs s \<rparr>"
  have "wellformed ?t" using assms(1) by (simp add: wellformed_ignores)
  moreover have "finished ?t" using assms(3) by simp
  ultimately have "stepS ?t = ?t" by (rule stepS_finished)
  with assms show ?thesis by (simp add: duePass_eq)
qed

lemma stepsLeft_duePass:
  assumes "wellformed s" and "topToBottom s" and "\<not> finished s"
  shows "stepsLeft (duePass s) < stepsLeft s"
proof -
  let ?t = "s\<lparr> lastGravity := 90, lastStepMs := lastStepMs s + stepIntervalMs s \<rparr>"
  have "wellformed ?t" using assms(1) by (simp add: wellformed_ignores)
  moreover have "\<not> finished ?t" using assms(3) by simp
  ultimately have "stepsLeft (stepS ?t) < stepsLeft ?t" by (rule stepsLeft_stepS)
  with assms(2) show ?thesis by (simp add: duePass_eq stepsLeft_ignores)
qed

lemma duePass_topToBottom: "topToBottom s \<Longrightarrow> topToBottom (duePass s)"
  by (simp add: duePass_eq)

lemma wellformed_duePass: "wellformed s \<Longrightarrow> wellformed (duePass s)"
  unfolding duePass_def Let_def by (rule wellformed_loop)

lemma reachable_duePass: "reachable s \<Longrightarrow> reachable (duePass s)"
  unfolding duePass_def Let_def by (rule reachable.pass)

lemma reachable_run: "reachable s \<Longrightarrow> reachable ((duePass ^^ n) s)"
  by (induction n) (simp_all add: reachable_duePass)

lemma run_finishes:
  assumes "wellformed s" and "topToBottom s" and "stepsLeft s \<le> n"
  shows "finished ((duePass ^^ n) s)"
  using assms
proof (induction n arbitrary: s)
  case 0
  then show ?case by (simp add: stepsLeft_def split: if_splits)
next
  case (Suc n)
  have next_ok: "wellformed (duePass s)" "topToBottom (duePass s)"
    using Suc.prems by (simp_all add: wellformed_duePass duePass_topToBottom)
  have "stepsLeft (duePass s) \<le> n"
  proof (cases "finished s")
    case True
    with Suc.prems have "finished (duePass s)" by (intro duePass_finished)
    then show ?thesis by (simp add: stepsLeft_def)
  next
    case False
    with Suc.prems have "stepsLeft (duePass s) < stepsLeft s" by (intro stepsLeft_duePass)
    with Suc.prems show ?thesis by simp
  qed
  with next_ok have "finished ((duePass ^^ n) (duePass s))" by (intro Suc.IH)
  then show ?case by (simp add: funpow_swap1)
qed

subsection \<open>Where the hole is when the cycle ends\<close>






subsection \<open>The first grain of a cycle\<close>

lemma fall_step:
  assumes "yStatic s = replicate 8 (replicate 8 False)" and "grainActive s" and "\<not> finished s"
    and "grRow s = int (Suc n)" and "grCol s = int (Suc n)" and "n < 7"
  shows "yStatic (stepS s) = replicate 8 (replicate 8 False) \<and> grainActive (stepS s) \<and>
         \<not> finished (stepS s) \<and> grRow (stepS s) = int n \<and> grCol (stepS s) = int n"
proof -
  have "\<not> yStatic s ! nat (grRow s - 1) ! nat (grCol s - 1)"
    using assms by simp
  with assms have "tryMove s = (s\<lparr> grRow := grRow s - 1, grCol := grCol s - 1 \<rparr>, True)"
    by (simp add: tryMove_alt)
  then have "moveGrain s = s\<lparr> grRow := grRow s - 1, grCol := grCol s - 1 \<rparr>"
    by (simp add: moveGrain_def)
  with assms show ?thesis by (simp add: stepS_move)
qed

lemma first_grain:
  assumes "\<not> finished s" and "\<not> grainActive s" and "grainIndex s < 64"
    and "yStatic s = replicate 8 (replicate 8 False)" and "j \<le> 7"
  shows "yStatic ((stepS ^^ Suc j) s) = replicate 8 (replicate 8 False) \<and>
         grainActive ((stepS ^^ Suc j) s) \<and> \<not> finished ((stepS ^^ Suc j) s) \<and>
         grRow ((stepS ^^ Suc j) s) = 7 - int j \<and> grCol ((stepS ^^ Suc j) s) = 7 - int j"
  using \<open>j \<le> 7\<close>
proof (induction j)
  case 0
  from assms(1-4) show ?case by (simp add: stepS_spawn)
next
  case (Suc j)
  define u where "u = (stepS ^^ Suc j) s"
  have nxt: "(stepS ^^ Suc (Suc j)) s = stepS u" by (simp add: u_def)
  from Suc have prev: "yStatic u = replicate 8 (replicate 8 False)" "grainActive u"
    "\<not> finished u" "grRow u = 7 - int j" "grCol u = 7 - int j"
    by (simp_all add: u_def)
  from Suc.prems have pos: "7 - int j = int (Suc (6 - j))" "6 - j < 7" by simp_all
  from fall_step [OF prev(1-3) prev(4) [unfolded pos(1)] prev(5) [unfolded pos(1)] pos(2)]
  have "yStatic (stepS u) = replicate 8 (replicate 8 False) \<and> grainActive (stepS u) \<and>
         \<not> finished (stepS u) \<and> grRow (stepS u) = int (6 - j) \<and> grCol (stepS u) = int (6 - j)" .
  moreover from Suc.prems have "int (6 - j) = 7 - int (Suc j)" by simp
  ultimately show ?case unfolding nxt by simp
qed

lemma boot_empty: "yStatic (setupBoard x y v now) = replicate 8 (replicate 8 False)"
  by (simp add: setupBoard_def startNewCycle_def Let_def)


lemma index_full_iff: "(unat (g :: u8) = 64) = (g = 64)"
  by (simp add: word_unat_eq_iff)

lemma boot_run:
  "topToBottom (setupBoard 0 (- 30) 150 0)"
  "stepsLeft (setupBoard 0 (- 30) 150 0) = 1040"
  by (simp_all add: boot_fields stepsLeft_def getGravity_def ACC_THRESHOLD_LOW_def)

lemma first_pass:
  "duePass (setupBoard 0 (- 30) 150 0) =
     stepS (setupBoard 0 (- 30) 150 0
       \<lparr> lastGravity := 90,
         lastStepMs := lastStepMs (setupBoard 0 (- 30) 150 0)
                       + stepIntervalMs (setupBoard 0 (- 30) 150 0) \<rparr>)"
  by (rule duePass_eq) (rule boot_run)

lemma first_pass_grain: "grainActive (duePass (setupBoard 0 (- 30) 150 0))"
  unfolding first_pass by (simp add: stepS_spawn boot_fields)

lemma second_pass_grain: "grainActive (stepS (duePass (setupBoard 0 (- 30) 150 0)))"
proof -
  define b where "b = setupBoard 0 (- 30) 150 0
       \<lparr> lastGravity := 90,
         lastStepMs := lastStepMs (setupBoard 0 (- 30) 150 0)
                       + stepIntervalMs (setupBoard 0 (- 30) 150 0) \<rparr>"
  have "grainActive ((stepS ^^ Suc 1) b)"
    using first_grain [of b 1] by (simp add: b_def boot_fields boot_empty)
  then show ?thesis unfolding first_pass b_def by simp
qed

subsection \<open>The grain and the two fields\<close>

lemma wf0_grain:
  assumes "wf0 s" and "grainActive s"
  shows "0 \<le> grRow s" "grRow s < 8" "0 \<le> grCol s" "grCol s < 8"
    "\<not> yStatic s ! nat (grRow s) ! nat (grCol s)"
proof -
  from assms show b: "0 \<le> grRow s" "grRow s < 8" "0 \<le> grCol s" "grCol s < 8"
    by (simp_all add: wf0_def)
  from assms have "(nat (grRow s), nat (grCol s)) \<notin> settled s" by (simp add: wf0_def)
  moreover from b have "nat (grRow s) < 8" "nat (grCol s) < 8" by simp_all
  ultimately show "\<not> yStatic s ! nat (grRow s) ! nat (grCol s)" by (simp add: settled_def)
qed

lemma length_fold_keeps:
  assumes "\<And>x m. length (f x m) = length m"
  shows "length (fold f xs m) = length m"
  by (induction xs arbitrary: m) (simp_all add: assms)

lemma buildMaskY_grain:
  assumes "grainActive s" and "0 \<le> grRow s" "grRow s < 8" "0 \<le> grCol s" "grCol s < 8"
  shows "bit (maskY (buildMaskY s) ! nat (grRow s)) (nat (grCol s))"
proof -
  define m1 where "m1 = fold (\<lambda>r m.
      fold (\<lambda>c m. if yStatic s ! r ! c then m[r := (m ! r) OR push_bit c 1] else m) [0..<8] m)
      [0..<8] (replicate 8 (0 :: u8))"
  have "length m1 = length (replicate 8 (0 :: u8))"
    unfolding m1_def by (intro length_fold_keeps) simp
  then have len: "length m1 = 8" by simp
  have "maskY (buildMaskY s) = m1[nat (grRow s) := (m1 ! nat (grRow s)) OR push_bit (nat (grCol s)) 1]"
    using assms unfolding buildMaskY_def Let_def m1_def by simp
  moreover have "nat (grRow s) < 8" "nat (grCol s) < 8" using assms by simp_all
  ultimately show ?thesis using len by (simp add: bit_set2)
qed

lemma source_empty_mask:
  assumes "wf0 s" and "drained s = 64"
  shows "maskX s = replicate 8 0"
proof -
  from assms have none: "source s = {}" by (simp add: wf0_def length_diagOrder)
  from assms(1) have len: "length (maskX s) = 8" by (simp add: wf0_def)
  have "maskX s ! r = 0" if "r < 8" for r
  proof (rule bit_eqI)
    fix c
    have "\<not> bit (maskX s ! r) c"
    proof
      assume b: "bit (maskX s ! r) c"
      then have "c < 8" using bit_imp_le_length [OF b] by simp
      with that b have "(r, c) \<in> source s" by (simp add: source_def)
      with none show False by simp
    qed
    then show "bit (maskX s ! r) c = bit (0 :: u8) c" by simp
  qed
  with len show ?thesis by (simp add: list_eq_iff_nth_eq)
qed

lemma stepS_fixed:
  assumes "wellformed s" and "finished s"
  shows "(stepS ^^ n) s = s"
  by (induction n) (simp_all add: stepS_finished [OF assms])

lemma end_state:
  assumes "1040 \<le> n"
  shows "reachable ((duePass ^^ n) (setupBoard 0 (- 30) 150 0))"
    "finished ((duePass ^^ n) (setupBoard 0 (- 30) 150 0))"
    "grainIndex ((duePass ^^ n) (setupBoard 0 (- 30) 150 0)) = 64"
proof -
  let ?e = "(duePass ^^ n) (setupBoard 0 (- 30) 150 0)"
  show r: "reachable ?e" by (intro reachable_run reachable.boot)
  show f: "finished ?e"
    using assms by (intro run_finishes wellformed_setupBoard) (simp_all add: boot_run)
  from r have "wf0 ?e" using reachable_wellformed by (simp add: wellformed_def)
  with f have "unat (grainIndex ?e) = 64" by (simp add: wf0_def)
  then show "grainIndex ?e = 64" by (simp add: index_full_iff)
qed

subsection \<open>Settling\<close>

lemma all_le_Suc_shift: "(\<forall>j\<le>Suc k. P j) = (P 0 \<and> (\<forall>j\<le>k. P (Suc j)))"
proof
  assume "\<forall>j\<le>Suc k. P j"
  then show "P 0 \<and> (\<forall>j\<le>k. P (Suc j))" by simp
next
  assume a: "P 0 \<and> (\<forall>j\<le>k. P (Suc j))"
  show "\<forall>j\<le>Suc k. P j"
  proof (intro allI impI)
    fix j assume "j \<le> Suc k"
    with a show "P j" by (cases j) simp_all
  qed
qed

lemma all_less_Suc_shift: "(\<forall>j<Suc k. P j) = (P 0 \<and> (\<forall>j<k. P (Suc j)))"
proof
  assume "\<forall>j<Suc k. P j"
  then show "P 0 \<and> (\<forall>j<k. P (Suc j))" by simp
next
  assume a: "P 0 \<and> (\<forall>j<k. P (Suc j))"
  show "\<forall>j<Suc k. P j"
  proof (intro allI impI)
    fix j assume "j < Suc k"
    with a show "P j" by (cases j) simp_all
  qed
qed

lemma settle_within:
  assumes "grainActive s" and "\<not> finished s" and "0 \<le> grRow s" and "0 \<le> grCol s"
    and "nat (grRow s + grCol s) \<le> n"
  shows "\<exists>k\<le>n. (\<forall>j\<le>k. grainActive ((stepS ^^ j) s)) \<and>
           (\<forall>j<k. grRow ((stepS ^^ Suc j) s) + grCol ((stepS ^^ Suc j) s)
                    < grRow ((stepS ^^ j) s) + grCol ((stepS ^^ j) s)) \<and>
           \<not> grainActive ((stepS ^^ Suc k) s) \<and>
           grainIndex ((stepS ^^ Suc k) s) = grainIndex s + 1"
  using assms
proof (induction n arbitrary: s)
  case 0
  have "moveGrain s = settleGrain s"
  proof (cases s rule: moveGrain_cases)
    case (moved a b t)
    with 0 show ?thesis by simp
  next
    case stuck
    then show ?thesis by simp
  qed
  with 0 have "\<not> grainActive (stepS s)" "grainIndex (stepS s) = grainIndex s + 1"
    by (simp_all add: stepS_move)
  with 0 show ?case by simp
next
  case (Suc n)
  show ?case
  proof (cases s rule: moveGrain_cases)
    case stuck
    with Suc.prems have "\<not> grainActive (stepS s)" "grainIndex (stepS s) = grainIndex s + 1"
      by (simp_all add: stepS_move)
    with Suc.prems have "(\<forall>j\<le>0. grainActive ((stepS ^^ j) s)) \<and>
           (\<forall>j<0. grRow ((stepS ^^ Suc j) s) + grCol ((stepS ^^ Suc j) s)
                    < grRow ((stepS ^^ j) s) + grCol ((stepS ^^ j) s)) \<and>
           \<not> grainActive ((stepS ^^ Suc 0) s) \<and>
           grainIndex ((stepS ^^ Suc 0) s) = grainIndex s + 1"
      by simp
    then show ?thesis by blast
  next
    case (moved a b t)
    with Suc.prems have nxt: "grainActive (stepS s)" "\<not> finished (stepS s)"
      "grRow (stepS s) = a" "grCol (stepS s) = b" "grainIndex (stepS s) = grainIndex s"
      by (simp_all add: stepS_move)
    from moved Suc.prems have ab: "0 \<le> a" "0 \<le> b" "nat (a + b) \<le> n" by simp_all
    from Suc.IH [OF nxt(1,2) ab(1) [folded nxt(3)] ab(2) [folded nxt(4)]] ab(3) nxt(3,4)
    obtain k where k: "k \<le> n" "\<forall>j\<le>k. grainActive ((stepS ^^ j) (stepS s))"
      "\<forall>j<k. grRow ((stepS ^^ Suc j) (stepS s)) + grCol ((stepS ^^ Suc j) (stepS s))
               < grRow ((stepS ^^ j) (stepS s)) + grCol ((stepS ^^ j) (stepS s))"
      "\<not> grainActive ((stepS ^^ Suc k) (stepS s))"
      "grainIndex ((stepS ^^ Suc k) (stepS s)) = grainIndex (stepS s) + 1"
      by auto
    have shift: "(stepS ^^ j) (stepS s) = (stepS ^^ Suc j) s" for j
      by (simp add: funpow_swap1)
    from moved nxt have first: "grRow (stepS s) + grCol (stepS s) < grRow s + grCol s" by simp
    have "Suc k \<le> Suc n" using k(1) by simp
    moreover have "\<forall>j\<le>Suc k. grainActive ((stepS ^^ j) s)"
      unfolding all_le_Suc_shift using k(2) Suc.prems(1) unfolding shift by simp
    moreover have "\<forall>j<Suc k. grRow ((stepS ^^ Suc j) s) + grCol ((stepS ^^ Suc j) s)
                    < grRow ((stepS ^^ j) s) + grCol ((stepS ^^ j) s)"
      unfolding all_less_Suc_shift using k(3) first unfolding shift by simp
    moreover have "\<not> grainActive ((stepS ^^ Suc (Suc k)) s)"
      using k(4) unfolding shift .
    moreover have "grainIndex ((stepS ^^ Suc (Suc k)) s) = grainIndex s + 1"
      using k(5) nxt(5) unfolding shift by simp
    ultimately show ?thesis by blast
  qed
qed

subsection \<open>The hole\<close>


section \<open>Folds that set bits, and the quarter turn\<close>

lemma mark_inner:
  fixes dst :: "u8 list"
  assumes "\<forall>c\<in>set cs. J c < length dst" and "j < length dst"
  shows "length (fold (\<lambda>c d. if P c then d[J c := (d ! J c) OR push_bit (I c) 1] else d) cs dst)
           = length dst \<and>
         bit (fold (\<lambda>c d. if P c then d[J c := (d ! J c) OR push_bit (I c) 1] else d) cs dst ! j) i
           = (bit (dst ! j) i \<or> (\<exists>c\<in>set cs. P c \<and> J c = j \<and> I c = i \<and> i < 8))"
  using assms
proof (induction cs arbitrary: dst)
  case Nil
  then show ?case by simp
next
  case (Cons c cs)
  let ?d = "if P c then dst[J c := (dst ! J c) OR push_bit (I c) 1] else dst"
  have len: "length ?d = length dst" by simp
  have one: "bit (?d ! j) i = (bit (dst ! j) i \<or> (P c \<and> J c = j \<and> I c = i \<and> i < 8))"
    using Cons.prems by (auto simp add: nth_list_update bit_set2)
  from Cons.prems have "\<forall>c\<in>set cs. J c < length ?d" "j < length ?d" by simp_all
  from Cons.IH [OF this] len one show ?case by auto
qed

lemma mark_outer:
  fixes dst :: "u8 list"
  assumes "\<forall>r\<in>set rs. \<forall>c\<in>set cs. J r c < length dst" and "j < length dst"
  shows "length (fold (\<lambda>r d. fold (\<lambda>c d. if P r c then d[J r c := (d ! J r c) OR push_bit (I r c) 1]
             else d) cs d) rs dst) = length dst \<and>
         bit (fold (\<lambda>r d. fold (\<lambda>c d. if P r c then d[J r c := (d ! J r c) OR push_bit (I r c) 1]
             else d) cs d) rs dst ! j) i
           = (bit (dst ! j) i \<or> (\<exists>r\<in>set rs. \<exists>c\<in>set cs. P r c \<and> J r c = j \<and> I r c = i \<and> i < 8))"
  using assms
proof (induction rs arbitrary: dst)
  case Nil
  then show ?case by simp
next
  case (Cons r rs)
  let ?d = "fold (\<lambda>c d. if P r c then d[J r c := (d ! J r c) OR push_bit (I r c) 1] else d) cs dst"
  from Cons.prems have inner: "\<forall>c\<in>set cs. J r c < length dst" "j < length dst" by simp_all
  from mark_inner [OF inner, of "P r" "I r" i]
  have len: "length ?d = length dst"
    and one: "bit (?d ! j) i = (bit (dst ! j) i \<or> (\<exists>c\<in>set cs. P r c \<and> J r c = j \<and> I r c = i \<and> i < 8))"
    by simp_all
  from Cons.prems len have "\<forall>r\<in>set rs. \<forall>c\<in>set cs. J r c < length ?d" "j < length ?d" by simp_all
  from Cons.IH [OF this] len one show ?case by auto
qed

lemma rotate8_90: "rotate8 x y 90 = (7 - y, x)"
  by (simp add: rotate8_def signed_modulo_int_def)

lemma applyRotation_90:
  "applyRotation src 90 =
     fold (\<lambda>r d. fold (\<lambda>c d.
        if bit (src ! r) c
        then d[unat (of_nat c :: u8) := (d ! unat (of_nat c :: u8)) OR push_bit (unat (7 - of_nat r :: u8)) 1]
        else d) [0..<8] d) [0..<8] (replicate 8 0)"
  unfolding applyRotation_def rotate8_90 Let_def prod.case bit_test ..

lemma quarter_turn:
  assumes "j < 8"
  shows "length (applyRotation src 90) = 8"
    and "bit (applyRotation src 90 ! j) i = (i < 8 \<and> bit (src ! (7 - i)) j)"
proof -
  have idx: "\<forall>r\<in>set [0..<8]. \<forall>c\<in>set [0..<8]. unat (of_nat c :: u8) < length (replicate 8 (0 :: u8))"
    by (simp add: unat_of_nat_small)
  have j: "j < length (replicate 8 (0 :: u8))" using assms by simp
  note m = mark_outer [OF idx j, of "\<lambda>r c. bit (src ! r) c" "\<lambda>r c. unat (7 - of_nat r :: u8)" i,
      folded applyRotation_90]
  from m show "length (applyRotation src 90) = 8" by simp
  have "(\<exists>r\<in>set [0..<8]. \<exists>c\<in>set [0..<8]. bit (src ! r) c \<and> unat (of_nat c :: u8) = j \<and>
          unat (7 - of_nat r :: u8) = i \<and> i < 8) = (i < 8 \<and> bit (src ! (7 - i)) j)"
  proof
    assume "\<exists>r\<in>set [0..<8]. \<exists>c\<in>set [0..<8]. bit (src ! r) c \<and> unat (of_nat c :: u8) = j \<and>
          unat (7 - of_nat r :: u8) = i \<and> i < 8"
    then obtain r c where rc: "r < 8" "c < 8" "bit (src ! r) c" "unat (of_nat c :: u8) = j"
      "unat (7 - of_nat r :: u8) = i" "i < 8"
      by auto
    then have "c = j" "i = 7 - r" by (simp_all add: unat_of_nat_small unat_seven_minus)
    with rc show "i < 8 \<and> bit (src ! (7 - i)) j" by simp
  next
    assume a: "i < 8 \<and> bit (src ! (7 - i)) j"
    with assms have "7 - i < 8" "j < 8" "bit (src ! (7 - i)) j" "unat (of_nat j :: u8) = j"
      "unat (7 - of_nat (7 - i) :: u8) = i" "i < 8"
      by (simp_all add: unat_of_nat_small unat_seven_minus)
    then show "\<exists>r\<in>set [0..<8]. \<exists>c\<in>set [0..<8]. bit (src ! r) c \<and> unat (of_nat c :: u8) = j \<and>
          unat (7 - of_nat r :: u8) = i \<and> i < 8"
      by (intro bexI [of _ "7 - i"] bexI [of _ j]) simp_all
  qed
  with m assms show "bit (applyRotation src 90 ! j) i = (i < 8 \<and> bit (src ! (7 - i)) j)" by simp
qed

section \<open>The claims\<close>



text \<open>
  C2: the drain order that \<^verbatim>\<open>buildOrderDiagonal\<close> writes lists each of the 64 cells of the
  grid exactly once, by ascending anti-diagonal \<open>row + col\<close>, and within one anti-diagonal by
  ascending distance \<open>|row - col|\<close> from the main diagonal.
\<close>

theorem drain_order_diagonal:
  "length (drainOrder (buildOrderDiagonal globals0)) = 64 \<and>
   distinct (drainOrder (buildOrderDiagonal globals0)) \<and>
   set (drainOrder (buildOrderDiagonal globals0)) = {0..<8} \<times> {0..<8} \<and>
   sorted_wrt (\<lambda>(r, c) (r', c'). r + c < r' + c' \<or>
       (r + c = r' + c' \<and> \<bar>int r - int c\<bar> \<le> \<bar>int r' - int c'\<bar>))
     (drainOrder (buildOrderDiagonal globals0)) \<and>
   hd (drainOrder (buildOrderDiagonal globals0)) = (0, 0) \<and>
   last (drainOrder (buildOrderDiagonal globals0)) = (7, 7)"
proof -
  have "set diagOrder = {0..<8} \<times> {0..<8}"
    unfolding set_diagOrder set_cells by auto
  moreover have "hd diagOrder = (0, 0)" "last diagOrder = (7, 7)"
    unfolding diagOrder_value by simp_all
  ultimately show ?thesis
    using length_diagOrder distinct_diagOrder diagOrder_sorted
    unfolding diagOrder_def by simp
qed

text \<open>
  C3: in every state of a run with an active grain, the cell of the grain is false in
  \<^verbatim>\<open>yStatic\<close>, and so it is after one more animation step if the grain is still active.
  A step that spawns a grain puts it on the neck cell (7,7), which is false in
  \<^verbatim>\<open>yStatic\<close> at that moment.
\<close>

theorem grain_never_overlaps:
  assumes "reachable s" and "grainActive s"
    and "reachable t" and "\<not> finished t" and "\<not> grainActive t"
  shows "\<not> yStatic s ! nat (grRow s) ! nat (grCol s) \<and>
         (grainActive (stepS s) \<longrightarrow>
            \<not> yStatic (stepS s) ! nat (grRow (stepS s)) ! nat (grCol (stepS s))) \<and>
         grainActive (stepS t) \<and> grRow (stepS t) = 7 \<and> grCol (stepS t) = 7 \<and>
         \<not> yStatic (stepS t) ! 7 ! 7"
proof -
  have free: "\<not> yStatic u ! nat (grRow u) ! nat (grCol u)" if "wellformed u" "grainActive u" for u
    using that by (simp add: wellformed_def wf0_grain)
  from assms(1,3) have wf: "wellformed s" "wellformed t" by (simp_all add: reachable_wellformed)
  then have wf': "wellformed (stepS s)" "wellformed (stepS t)" by (simp_all add: wellformed_stepS)
  from wf(2) assms(4) have "grainIndex t < 64"
    unfolding wellformed_def wf0_def index_lt_iff by auto
  with assms(4,5) have spawn: "grainActive (stepS t)" "grRow (stepS t) = 7" "grCol (stepS t) = 7"
    by (simp_all add: stepS_spawn)
  with free [OF wf'(2)] have "\<not> yStatic (stepS t) ! 7 ! 7" by simp
  with spawn free [OF wf(1) assms(2)] free [OF wf'(1)] show ?thesis by simp
qed

theorem grain_never_overlaps_witness:
  "reachable (duePass (setupBoard 0 (- 30) 150 0)) \<and>
   grainActive (duePass (setupBoard 0 (- 30) 150 0)) \<and>
   reachable (setupBoard 0 (- 30) 150 0) \<and>
   \<not> finished (setupBoard 0 (- 30) 150 0) \<and>
   \<not> grainActive (setupBoard 0 (- 30) 150 0) \<and>
   grainActive (stepS (duePass (setupBoard 0 (- 30) 150 0))) \<and>
   \<not> yStatic (duePass (setupBoard 0 (- 30) 150 0))
       ! nat (grRow (duePass (setupBoard 0 (- 30) 150 0)))
       ! nat (grCol (duePass (setupBoard 0 (- 30) 150 0))) \<and>
   \<not> yStatic (stepS (duePass (setupBoard 0 (- 30) 150 0)))
       ! nat (grRow (stepS (duePass (setupBoard 0 (- 30) 150 0))))
       ! nat (grCol (stepS (duePass (setupBoard 0 (- 30) 150 0)))) \<and>
   \<not> yStatic (stepS (setupBoard 0 (- 30) 150 0)) ! 7 ! 7"
proof -
  have r0: "reachable (setupBoard 0 (- 30) 150 0)" by (rule reachable.boot)
  then have r1: "reachable (duePass (setupBoard 0 (- 30) 150 0))" by (rule reachable_duePass)
  have idle: "\<not> finished (setupBoard 0 (- 30) 150 0)" "\<not> grainActive (setupBoard 0 (- 30) 150 0)"
    by (simp_all add: boot_fields)
  from grain_never_overlaps [OF r1 first_pass_grain r0 idle] r0 r1 first_pass_grain idle
    second_pass_grain
  show ?thesis by simp
qed




text \<open>
  C5: in a state of a run where the drain index is 64, the cycle is finished, no grain is
  active, all 64 cells of \<^verbatim>\<open>yStatic\<close> are set, \<^verbatim>\<open>maskX\<close> is all zero, and any number of
  further animation steps leaves the whole state, both fields included, as it is.
\<close>

theorem cycle_finishes:
  assumes "reachable s" and "grainIndex s = 64"
  shows "finished s \<and> \<not> grainActive s \<and> countY s = 64 \<and> countX s = 0 \<and>
         maskX s = replicate 8 0 \<and> (stepS ^^ n) s = s"
proof -
  from assms(1) have wf: "wellformed s" by (rule reachable_wellformed)
  then have wf0: "wf0 s" by (simp add: wellformed_def)
  from assms(2) have k: "unat (grainIndex s) = 64" by simp
  with wf0 have fin: "finished s" and idle: "\<not> grainActive s"
    unfolding wf0_def by auto
  from k idle have d: "drained s = 64" by (simp add: drained_def)
  from wf0 k have "countY s = 64" by (simp add: countY_card wf0_def)
  moreover from wf0_countX [OF wf0] d have "countX s = 0" by simp
  moreover note source_empty_mask [OF wf0 d] stepS_fixed [OF wf fin, of n]
  ultimately show ?thesis using fin idle by simp
qed

theorem cycle_finishes_witness:
  "reachable ((duePass ^^ 1040) (setupBoard 0 (- 30) 150 0)) \<and>
   grainIndex ((duePass ^^ 1040) (setupBoard 0 (- 30) 150 0)) = 64 \<and>
   finished ((duePass ^^ 1040) (setupBoard 0 (- 30) 150 0)) \<and>
   maskX ((duePass ^^ 1040) (setupBoard 0 (- 30) 150 0)) = replicate 8 0 \<and>
   stepS ((duePass ^^ 1040) (setupBoard 0 (- 30) 150 0)) = (duePass ^^ 1040) (setupBoard 0 (- 30) 150 0)"
proof -
  have n: "(1040 :: nat) \<le> 1040" by simp
  from cycle_finishes [OF end_state(1) [OF n] end_state(3) [OF n], of 1] end_state(1,3) [OF n]
  show ?thesis by simp
qed

text \<open>
  C6: four quarter turns by \<^verbatim>\<open>applyRotation\<close> give back any bitmap of eight bytes, and four
  quarter turns by \<^verbatim>\<open>rotate8\<close> give back any coordinate.
\<close>

theorem rotation_round_trip:
  assumes "length src = 8"
  shows "applyRotation (applyRotation (applyRotation (applyRotation src 90) 90) 90) 90 = src \<and>
         (\<lambda>(x, y). rotate8 x y 90) ((\<lambda>(x, y). rotate8 x y 90) ((\<lambda>(x, y). rotate8 x y 90)
            (rotate8 x y 90))) = (x, y)"
proof -
  let ?r1 = "applyRotation src 90"
  let ?r2 = "applyRotation ?r1 90"
  let ?r3 = "applyRotation ?r2 90"
  let ?r4 = "applyRotation ?r3 90"
  have "?r4 ! j = src ! j" if "j < 8" for j
  proof (rule bit_eqI)
    fix i
    show "bit (?r4 ! j) i = bit (src ! j) i"
    proof (cases "i < 8")
      case True
      with that have s: "7 - i < 8" "7 - j < 8" "7 - (7 - i) = i" "7 - (7 - j) = j" by simp_all
      have "bit (?r4 ! j) i = bit (?r3 ! (7 - i)) j"
        using True by (simp add: quarter_turn(2) [OF that])
      also have "\<dots> = bit (?r2 ! (7 - j)) (7 - i)"
        using that by (simp add: quarter_turn(2) [OF s(1)])
      also have "\<dots> = bit (?r1 ! i) (7 - j)"
        using s by (simp add: quarter_turn(2) [OF s(2)])
      also have "\<dots> = bit (src ! j) i"
        using s by (simp add: quarter_turn(2) [OF True])
      finally show ?thesis .
    next
      case False
      then have "\<not> bit (?r4 ! j) i" "\<not> bit (src ! j) i"
        by (auto dest: bit_imp_le_length)
      then show ?thesis by simp
    qed
  qed
  moreover have "length ?r4 = 8" by (rule quarter_turn(1) [of 0]) simp
  ultimately have "?r4 = src" using assms by (simp add: list_eq_iff_nth_eq)
  then show ?thesis by (simp add: rotate8_90)
qed

theorem rotation_round_trip_witness:
  "length [1, 2, 4, 8, 16, 32, 64, 129 :: u8] = 8 \<and>
   applyRotation (applyRotation (applyRotation (applyRotation
     [1, 2, 4, 8, 16, 32, 64, 129] 90) 90) 90) 90 = [1, 2, 4, 8, 16, 32, 64, 129]"
proof -
  have len: "length [1, 2, 4, 8, 16, 32, 64, 129 :: u8] = 8" by simp
  from rotation_round_trip [OF len] len show ?thesis by blast
qed



text \<open>
  C8: the duration is a fixed breakpoint function of the potentiometer reading; a reading of
  150 gives a cycle of 30000 ms and a reading of 850 one of 600000 ms.
\<close>

theorem duration_breakpoints:
  "getDurationFromPot 150 = 30000 \<and> getDurationFromPot 850 = 600000 \<and>
   targetMs (startNewCycle d 150 now s) = 30000 \<and>
   targetMs (startNewCycle d 850 now s) = 600000"
  by (simp add: getDurationFromPot_def startNewCycle_def Let_def)

text \<open>
  C9: a step that spawns a grain puts it where \<open>row + col = 14\<close>. From there at most 14
  animation steps move the grain, each to a smaller \<open>row + col\<close>, and the step after the last
  move settles it: the grain is no longer active and the drain index has advanced by one.
\<close>

theorem grain_settles:
  assumes "\<not> finished s" and "\<not> grainActive s" and "grainIndex s < 64"
  shows "grRow (stepS s) + grCol (stepS s) = 14 \<and>
    (\<exists>k\<le>14. (\<forall>j\<le>k. grainActive ((stepS ^^ Suc j) s)) \<and>
       (\<forall>j<k. grRow ((stepS ^^ Suc (Suc j)) s) + grCol ((stepS ^^ Suc (Suc j)) s)
                < grRow ((stepS ^^ Suc j) s) + grCol ((stepS ^^ Suc j) s)) \<and>
       \<not> grainActive ((stepS ^^ Suc (Suc k)) s) \<and>
       grainIndex ((stepS ^^ Suc (Suc k)) s) = grainIndex s + 1)"
proof -
  from assms have sp: "grainActive (stepS s)" "\<not> finished (stepS s)" "grRow (stepS s) = 7"
    "grCol (stepS s) = 7" "grainIndex (stepS s) = grainIndex s"
    by (simp_all add: stepS_spawn)
  have shift: "(stepS ^^ j) (stepS s) = (stepS ^^ Suc j) s" for j
    by (simp add: funpow_swap1)
  from sp have "0 \<le> grRow (stepS s)" "0 \<le> grCol (stepS s)"
    "nat (grRow (stepS s) + grCol (stepS s)) \<le> 14"
    by simp_all
  from settle_within [OF sp(1,2) this] sp show ?thesis
    unfolding shift by simp
qed

theorem grain_settles_witness:
  "\<not> finished (setupBoard 0 (- 30) 150 0) \<and> \<not> grainActive (setupBoard 0 (- 30) 150 0) \<and>
   grainIndex (setupBoard 0 (- 30) 150 0) < 64 \<and>
   grRow (stepS (setupBoard 0 (- 30) 150 0)) + grCol (stepS (setupBoard 0 (- 30) 150 0)) = 14 \<and>
   (\<exists>k\<le>14. \<not> grainActive ((stepS ^^ Suc (Suc k)) (setupBoard 0 (- 30) 150 0)) \<and>
      grainIndex ((stepS ^^ Suc (Suc k)) (setupBoard 0 (- 30) 150 0)) = 1)"
proof -
  have h: "\<not> finished (setupBoard 0 (- 30) 150 0)" "\<not> grainActive (setupBoard 0 (- 30) 150 0)"
    "grainIndex (setupBoard 0 (- 30) 150 0) < 64"
    by (simp_all add: boot_fields)
  from grain_settles [OF h] h show ?thesis
    by (simp add: boot_fields) blast
qed

text \<open>
  C10: in every state of a run with an active grain, the row and the column of the grain are
  within 0..7. So the bounds check of \<^verbatim>\<open>buildMaskY\<close> passes (the bit of the grain is set
  in \<^verbatim>\<open>maskY\<close>) and so does the one before settling (\<^verbatim>\<open>settleGrain\<close> writes the cell).
\<close>

theorem grain_in_bounds:
  assumes "reachable s" and "grainActive s"
  shows "0 \<le> grRow s \<and> grRow s < 8 \<and> 0 \<le> grCol s \<and> grCol s < 8 \<and>
         bit (maskY s ! nat (grRow s)) (nat (grCol s)) \<and>
         yStatic (settleGrain s) =
           (yStatic s)[nat (grRow s) := (yStatic s ! nat (grRow s))[nat (grCol s) := True]]"
proof -
  from assms(1) have wf: "wellformed s" by (rule reachable_wellformed)
  with assms(2) have b: "0 \<le> grRow s" "grRow s < 8" "0 \<le> grCol s" "grCol s < 8"
    by (simp_all add: wellformed_def wf0_grain)
  from buildMaskY_grain [OF assms(2) b] wf
  have "bit (maskY s ! nat (grRow s)) (nat (grCol s))" by (simp add: wellformed_def)
  moreover have "yStatic (settleGrain s) =
      (yStatic s)[nat (grRow s) := (yStatic s ! nat (grRow s))[nat (grCol s) := True]]"
    by (subst settleGrain_fields [OF b]) simp
  ultimately show ?thesis using b by simp
qed

theorem grain_in_bounds_witness:
  "reachable (duePass (setupBoard 0 (- 30) 150 0)) \<and>
   grainActive (duePass (setupBoard 0 (- 30) 150 0)) \<and>
   0 \<le> grRow (duePass (setupBoard 0 (- 30) 150 0)) \<and>
   grRow (duePass (setupBoard 0 (- 30) 150 0)) < 8 \<and>
   0 \<le> grCol (duePass (setupBoard 0 (- 30) 150 0)) \<and>
   grCol (duePass (setupBoard 0 (- 30) 150 0)) < 8"
proof -
  have r: "reachable (duePass (setupBoard 0 (- 30) 150 0))"
    by (intro reachable_duePass reachable.boot)
  from grain_in_bounds [OF r first_pass_grain] r first_pass_grain show ?thesis by simp
qed

end
